theory Spec2Isabelle
  imports Main "HOL-Library.Word"
begin

section \<open>Robin-Hood hash table (table.c): data model\<close>

text \<open>
  The C types: \<open>unsigned long\<close> and \<open>size_t\<close> are 64 bits wide, \<open>unsigned int\<close> is
  32 bits wide. A key pointer is \<open>None\<close> for \<open>NULL\<close> and \<open>Some bs\<close> for a pointer to
  the bytes \<open>bs\<close> (the table never writes through a key pointer and never compares two
  of them, so a pointer is modelled by what it points to). A byte read at or after the
  end of \<open>bs\<close> gives 0, the terminator of a C string. A data pointer is an address,
  \<open>0\<close> for \<open>NULL\<close>. The field \<open>alive\<close> only ever holds 0 or 1 and is a \<open>bool\<close>.
\<close>

type_synonym u64 = "64 word"
type_synonym u32 = "32 word"
type_synonym byte = "8 word"
type_synonym key_ptr = "byte list option"
type_synonym data_ptr = nat

type_synonym hash_func = "key_ptr \<Rightarrow> nat \<Rightarrow> u64"
type_synonym cmp_func = "key_ptr \<Rightarrow> key_ptr \<Rightarrow> nat \<Rightarrow> int"

record entry =
  hash :: u64
  key :: key_ptr
  data :: data_ptr
  keylen :: nat
  probepos :: u32
  alive :: bool

text \<open>
  \<open>struct table\<close>. The slot array is the field \<open>slots\<close> (\<open>table\<close> in the source, the
  name of the struct too), its length is the field \<open>size\<close> of the source, here
  \<open>size_tbl\<close>; the two function pointers are \<open>hash_fn\<close> and \<open>cmp_fn\<close>.
\<close>

record table =
  slots :: "entry list"
  size_tbl :: nat
  step_prime :: nat
  totalweight :: u32
  maxprobe :: u32
  elements :: u32
  hash_fn :: hash_func
  cmp_fn :: cmp_func

definition NULL :: data_ptr where
  "NULL = 0"

text \<open>A slot as \<open>calloc\<close> returns it: every field zero.\<close>

definition zero_entry :: entry where
  "zero_entry = \<lparr>hash = 0, key = None, data = NULL, keylen = 0, probepos = 0, alive = False\<rparr>"

subsection \<open>Default comparison and hash\<close>

definition bytes_of :: "key_ptr \<Rightarrow> byte list" where
  "bytes_of k = (case k of None \<Rightarrow> [] | Some bs \<Rightarrow> bs)"

definition byte0 :: "byte list \<Rightarrow> byte" where
  "byte0 bs = (case bs of [] \<Rightarrow> 0 | b # _ \<Rightarrow> b)"

text \<open>
  \<open>strncmp\<close>: at most \<open>n\<close> bytes are compared, as unsigned values, and the comparison
  stops after a NUL byte. Only the sign of the result is specified by C.
\<close>

fun strncmp :: "byte list \<Rightarrow> byte list \<Rightarrow> nat \<Rightarrow> int" where
  "strncmp a b 0 = 0"
| "strncmp a b (Suc n) =
     (let c1 = byte0 a; c2 = byte0 b
      in if c1 \<noteq> c2 then uint c1 - uint c2
         else if c1 = 0 then 0
         else strncmp (tl a) (tl b) n)"

definition table_cmp :: cmp_func where
  "table_cmp k1 k2 len = strncmp (bytes_of k1) (bytes_of k2) len"

text \<open>
  djb2: \<open>hash = ((hash << 5) + hash) + key[c]\<close> with \<open>key[c]\<close> a (signed) \<open>char\<close>,
  sign-extended to 64 bits.
\<close>

fun djb2 :: "u64 \<Rightarrow> byte list \<Rightarrow> nat \<Rightarrow> u64" where
  "djb2 h bs 0 = h"
| "djb2 h bs (Suc n) = djb2 ((push_bit 5 h + h) + scast (byte0 bs)) (tl bs) n"

definition table_hash :: hash_func where
  "table_hash k len = djb2 5381 (bytes_of k) len"

subsection \<open>Sizing policy\<close>

text \<open>
  \<open>is_prime\<close>: the loop runs while \<open>i * i < n\<close>. The counter \<open>i\<close> is an \<open>int\<close> and so is
  the product \<open>i * i\<close>, which is converted to \<open>size_t\<close> for the comparison with \<open>n\<close>.
  \<open>int_square i\<close> is the value compared: the product keeps the low 32 bits of the exact
  square as a two's-complement \<open>int\<close> (the overflow wraps in the compiled code), and the
  conversion adds \<open>2 ^ 64\<close> to a negative value; \<open>2 ^ 32 = 4294967296\<close>,
  \<open>2 ^ 31 = 2147483648\<close> and \<open>2 ^ 64 - 2 ^ 32 = 18446744069414584320\<close>. The first counter
  whose square overflows is 46343, where the value compared is
  \<open>2 ^ 64 - 2147293647\<close>: the loop ends there, with the result 1, for every \<open>n\<close> up to
  that value that has no divisor found before. The counter itself is a natural number
  here and the loop is followed as long as it is at most the largest \<open>int\<close>,
  \<open>2147483647\<close>; only an \<open>n\<close> above \<open>2 ^ 64 - 2147293647\<close> can take it that far.
\<close>

definition int_square :: "nat \<Rightarrow> nat" where
  "int_square i =
     (let p = (i * i) mod 4294967296
      in if p < 2147483648 then p else 18446744069414584320 + p)"

function is_prime_loop :: "nat \<Rightarrow> nat \<Rightarrow> bool" where
  "is_prime_loop i n =
     (if i \<le> 2147483647 \<and> int_square i < n
      then (if n mod i = 0 \<or> n mod (i + 2) = 0 then False else is_prime_loop (i + 6) n)
      else True)"
  by pat_completeness auto
termination
proof (relation "measure (\<lambda>(i, n). 2147483648 - i)")
  show "wf (measure (\<lambda>(i, n). 2147483648 - i))" by simp
next
  fix i n :: nat
  assume "i \<le> 2147483647 \<and> int_square i < n"
  then have "i < 2147483648" by simp
  then show "((i + 6, n), (i, n)) \<in> measure (\<lambda>(i, n). 2147483648 - i)" by simp
qed

declare is_prime_loop.simps [simp del]

definition is_prime :: "nat \<Rightarrow> bool" where
  "is_prime n =
     (if n \<le> 1 then False
      else if n \<le> 3 then True
      else if n mod 2 = 0 \<or> n mod 3 = 0 then False
      else is_prime_loop 5 n)"

text \<open>
  \<open>(float)n\<close> for an unsigned integer \<open>n\<close>: the nearest value with a 24-bit
  significand, ties to even. The result is itself an integer; \<open>2 ^ 24 = 16777216\<close>.
\<close>

fun bitlen :: "nat \<Rightarrow> nat" where
  "bitlen n = (if n = 0 then 0 else Suc (bitlen (n div 2)))"

declare bitlen.simps [simp del]

fun pow2 :: "nat \<Rightarrow> nat" where
  "pow2 0 = 1"
| "pow2 (Suc k) = 2 * pow2 k"

definition float_of_nat :: "nat \<Rightarrow> nat" where
  "float_of_nat n =
     (if n < 16777216 then n
      else let k = bitlen n - 24; q = n div pow2 k; r = n mod pow2 k; h = pow2 (k - 1)
           in (if r < h \<or> (r = h \<and> even q) then q else q + 1) * pow2 k)"

text \<open>
  \<open>size_t new_size = cur_size * scalar\<close> with \<open>scalar = 2.5f\<close>: the product of
  \<open>(float)cur_size\<close> and 2.5, rounded to a float and truncated to an integer. Twice the
  exact product is the integer \<open>5 * (float)cur_size\<close>; rounding to 24 significant bits
  commutes with halving, and a float below \<open>2 ^ 24\<close> that is not an integer is an
  exact half, which the truncation drops.
\<close>

definition scale_size :: "nat \<Rightarrow> nat" where
  "scale_size cur_size = float_of_nat (5 * float_of_nat cur_size) div 2"

partial_function (option) next_prime_up :: "nat \<Rightarrow> nat option" where
  "next_prime_up new_size =
     (if is_prime new_size then Some new_size
      else next_prime_up ((new_size + 1) mod 18446744073709551616))"

definition next_prime_size :: "nat \<Rightarrow> nat option" where
  "next_prime_size cur_size = next_prime_up (scale_size cur_size)"

text \<open>
  \<open>next_prime_step\<close> walks down from \<open>cur_size - 1\<close>; the arithmetic is that of
  \<open>size_t\<close>, so 0 is followed by \<open>2 ^ 64 - 1 = 18446744073709551615\<close>.
\<close>

definition dec64 :: "nat \<Rightarrow> nat" where
  "dec64 n = (if n = 0 then 18446744073709551615 else n - 1)"

function next_prime_down :: "nat \<Rightarrow> nat" where
  "next_prime_down new_step =
     (if is_prime new_step then new_step else next_prime_down (dec64 new_step))"
  by pat_completeness auto
termination
proof (relation "measure (\<lambda>n. if 2 \<le> n then n else 18446744073709551616 + n)")
  show "wf (measure (\<lambda>n::nat. if 2 \<le> n then n else 18446744073709551616 + n))" by simp
next
  fix new_step :: nat
  assume np: "\<not> is_prime new_step"
  have "new_step \<noteq> 2" "new_step \<noteq> 3"
    using np by (auto simp: is_prime_def)
  then show "(dec64 new_step, new_step)
      \<in> measure (\<lambda>n. if 2 \<le> n then n else 18446744073709551616 + n)"
    by (auto simp: dec64_def)
qed

declare next_prime_down.simps [simp del]

definition next_prime_step :: "nat \<Rightarrow> nat" where
  "next_prime_step cur_size = next_prime_down (dec64 cur_size)"

text \<open>
  \<open>(float)elements / (float)size > 0.95\<close>. The quotient of the two floats is rounded
  to a float and compared with the double 0.95, which lies strictly between the
  adjacent floats \<open>15938355 / 2 ^ 24\<close> and \<open>15938356 / 2 ^ 24\<close>. The rounded quotient
  is above 0.95 exactly when the exact quotient is at least their midpoint
  \<open>31876711 / 2 ^ 25\<close>, where \<open>2 ^ 25 = 33554432\<close> (the tie goes to the even
  significand 15938356). A zero divisor
  gives infinity for a nonzero dividend and NaN, which compares false, for zero.
\<close>

definition load_factor_exceeded :: "u32 \<Rightarrow> nat \<Rightarrow> bool" where
  "load_factor_exceeded els sz =
     (if float_of_nat sz = 0 then float_of_nat (unat els) \<noteq> 0
      else 31876711 * float_of_nat sz \<le> 33554432 * float_of_nat (unat els))"

subsection \<open>Heuristic search\<close>

text \<open>
  The slot probed at position \<open>p\<close> of the sequence of a hash: the sum and the product are
  those of \<open>unsigned long\<close>.
\<close>

definition slot_index :: "u64 \<Rightarrow> u64 \<Rightarrow> u64 \<Rightarrow> nat \<Rightarrow> nat" where
  "slot_index h p step sz = unat (h + p * step) mod sz"

definition step_of :: "table \<Rightarrow> u64 \<Rightarrow> u64" where
  "step_of ta h = of_nat (step_prime ta - unat h mod step_prime ta)"

text \<open>
  The loop of \<open>internal_search\<close>. \<open>start\<close> and \<open>walk\<close> are \<open>int\<close>s of the source and
  integers here (their sum is converted to \<open>unsigned int\<close> for the comparison with
  \<open>maxprobe\<close> and to \<open>unsigned long\<close> for the product). The result is the position
  found, or \<open>-1\<close>.
\<close>

partial_function (option) search_loop ::
  "table \<Rightarrow> key_ptr \<Rightarrow> nat \<Rightarrow> u64 \<Rightarrow> u64 \<Rightarrow> int \<Rightarrow> int \<Rightarrow> bool \<Rightarrow> bool \<Rightarrow> int option"
where
  "search_loop ta k klen h step start walk topdone botdone =
     (let up = (\<not> topdone \<and> (of_int (start + walk) :: u32) \<le> maxprobe ta);
          pos_up = slot_index h (of_int (start + walk)) step (size_tbl ta);
          e_up = slots ta ! pos_up
      in if up \<and> key e_up \<noteq> None \<and> alive e_up \<and> cmp_fn ta k (key e_up) klen = 0
         then Some (int pos_up)
         else
           let topdone = (if up then (if key e_up = None then True else topdone) else True);
               down = (\<not> botdone \<and> 1 \<le> start - walk);
               pos_down = slot_index h (of_int (start - walk)) step (size_tbl ta);
               e_down = slots ta ! pos_down
           in if down \<and> alive e_down \<and> cmp_fn ta k (key e_down) klen = 0
              then Some (int pos_down)
              else
                let botdone = (if down then botdone else True)
                in if topdone \<and> botdone then Some (- 1)
                   else search_loop ta k klen h step start (walk + 1) topdone botdone)"

definition internal_search :: "table \<Rightarrow> key_ptr \<Rightarrow> nat \<Rightarrow> int option" where
  "internal_search ta k klen =
     (let h = hash_fn ta k klen;
          step = step_of ta h
      in if elements ta = 0 then Some (- 1)
         else search_loop ta k klen h step (sint (totalweight ta div elements ta)) 0 False False)"

subsection \<open>Insertion and growth\<close>

datatype loop_exit = Break | Return int

text \<open>
  The \<open>for(;;)\<close> loop of \<open>table_insert\<close>, on the table, the candidate record \<open>r\<close> and
  its step. The loop is left at a slot that is not alive, or at a live slot that holds
  the candidate's key; \<open>probe_walk\<close> is the loop up to that point and returns the table,
  the candidate and the index of the slot. A swap continues with the evicted record and
  its recomputed step.
\<close>

partial_function (option) probe_walk ::
  "table \<Rightarrow> entry \<Rightarrow> u64 \<Rightarrow> (table \<times> entry \<times> nat) option"
where
  "probe_walk ta r step =
     (let r = r\<lparr>probepos := probepos r + 1\<rparr>;
          ta = ta\<lparr>totalweight := totalweight ta + 1\<rparr>;
          i = slot_index (hash r) (ucast (probepos r)) step (size_tbl ta);
          e = slots ta ! i
      in if \<not> alive e then Some (ta, r, i)
         else if probepos e < probepos r \<or> (probepos e = probepos r \<and> hash r < hash e) then
           probe_walk (ta\<lparr>maxprobe := max (probepos r) (maxprobe ta), slots := (slots ta)[i := r]\<rparr>)
             e (step_of ta (hash e))
         else if probepos e = probepos r \<and> hash r = hash e
                 \<and> strncmp (bytes_of (key r)) (bytes_of (key e)) (keylen r) = 0 then
           Some (ta, r, i)
         else probe_walk ta r step)"

text \<open>
  What the loop does at the slot where it is left: in a slot that is not alive, the
  recycling test (when the slot holds a key) and the placement, followed by \<open>break\<close>
  or \<open>return 0\<close>; in a live slot with the candidate's key, the upsert and \<open>return 0\<close>.
\<close>

definition insert_exit :: "table \<Rightarrow> entry \<Rightarrow> nat \<Rightarrow> (loop_exit \<times> table \<times> entry) option" where
  "insert_exit ta r i =
     (let e = slots ta ! i
      in if \<not> alive e then
           (if key e \<noteq> None then
              (case internal_search ta (key r) (keylen r) of
                 None \<Rightarrow> None
               | Some pos \<Rightarrow>
                   if pos \<noteq> - 1 then
                     (let tb = (slots ta)[i := r];
                          tb = tb[nat pos := (tb ! nat pos)\<lparr>alive := False\<rparr>]
                      in Some (Return 0,
                           ta\<lparr>slots := tb,
                              totalweight := totalweight ta - probepos (tb ! nat pos)\<rparr>, r))
                   else Some (Break, ta\<lparr>slots := (slots ta)[i := r]\<rparr>, r))
            else Some (Break, ta\<lparr>slots := (slots ta)[i := r]\<rparr>, r))
         else
           Some (Return 0,
             ta\<lparr>slots := (slots ta)[i := e\<lparr>data := data r\<rparr>],
                totalweight := totalweight ta - probepos r\<rparr>, r))"

definition insert_loop :: "table \<Rightarrow> entry \<Rightarrow> u64 \<Rightarrow> (loop_exit \<times> table \<times> entry) option" where
  "insert_loop ta r step =
     (case probe_walk ta r step of
        None \<Rightarrow> None
      | Some (ta', r', i) \<Rightarrow> insert_exit ta' r' i)"

text \<open>
  The replay loop of \<open>grow_table\<close> over the old array, with the insertion it calls as
  a parameter; the value that insertion returns is dropped, as in the source.
\<close>

fun replay ::
  "(table \<Rightarrow> key_ptr \<Rightarrow> nat \<Rightarrow> data_ptr \<Rightarrow> (int \<times> table) option)
     \<Rightarrow> entry list \<Rightarrow> table \<Rightarrow> table option"
where
  "replay ins [] ta = Some ta"
| "replay ins (e # es) ta =
     (if alive e
      then (case ins ta (key e) (keylen e) (data e) of
              None \<Rightarrow> None
            | Some (_, ta') \<Rightarrow> replay ins es ta')
      else replay ins es ta)"

text \<open>
  \<open>grow_table\<close>, with the insertion it replays through as a parameter. \<open>calloc n\<close>
  tells whether the allocation of \<open>n\<close> slots succeeds.
\<close>

definition grow_table_with ::
  "(table \<Rightarrow> key_ptr \<Rightarrow> nat \<Rightarrow> data_ptr \<Rightarrow> (int \<times> table) option)
     \<Rightarrow> (nat \<Rightarrow> bool) \<Rightarrow> table \<Rightarrow> (int \<times> table) option"
where
  "grow_table_with ins calloc ta =
     (case next_prime_size (size_tbl ta) of
        None \<Rightarrow> None
      | Some new_size \<Rightarrow>
          if \<not> calloc new_size then Some (- 1, ta)
          else
            (case replay ins (take (size_tbl ta) (slots ta))
                    (ta\<lparr>slots := replicate new_size zero_entry,
                       size_tbl := new_size,
                       step_prime := next_prime_step new_size,
                       elements := 0, maxprobe := 0, totalweight := 0\<rparr>) of
               None \<Rightarrow> None
             | Some ta' \<Rightarrow> Some (0, ta')))"

lemma replay_mono [partial_function_mono]:
  assumes "\<And>ta k n d. mono_option (\<lambda>f. ins f ta k n d)"
  shows "mono_option (\<lambda>f. replay (ins f) es ta)"
proof (induction es arbitrary: ta)
  case Nil
  show ?case by (simp add: option.const_mono)
next
  case (Cons e es)
  have "mono_option (\<lambda>f. Option.bind (ins f ta (key e) (keylen e) (data e))
          (\<lambda>p. replay (ins f) es (snd p)))"
    by (rule bind_mono) (rule assms, rule Cons.IH)
  moreover have "(\<lambda>f. Option.bind (ins f ta (key e) (keylen e) (data e))
          (\<lambda>p. replay (ins f) es (snd p)))
        = (\<lambda>f. case ins f ta (key e) (keylen e) (data e) of
              None \<Rightarrow> None | Some (_, ta') \<Rightarrow> replay (ins f) es ta')"
    by (auto simp: fun_eq_iff split: option.splits)
  ultimately show ?case
    using Cons.IH [of ta] by (cases "alive e") simp_all
qed

lemma grow_table_with_mono [partial_function_mono]:
  assumes "\<And>ta k n d. mono_option (\<lambda>f. ins f ta k n d)"
  shows "mono_option (\<lambda>f. grow_table_with (ins f) calloc ta)"
proof -
  have eq: "(\<lambda>f. grow_table_with (ins f) calloc ta)
        = (\<lambda>f. Option.bind (next_prime_size (size_tbl ta)) (\<lambda>new_size.
          if \<not> calloc new_size then Some (- 1, ta)
          else Option.bind (replay (ins f) (take (size_tbl ta) (slots ta))
                    (ta\<lparr>slots := replicate new_size zero_entry,
                       size_tbl := new_size,
                       step_prime := next_prime_step new_size,
                       elements := 0, maxprobe := 0, totalweight := 0\<rparr>))
                 (\<lambda>ta'. Some (0, ta'))))"
    by (auto simp: fun_eq_iff grow_table_with_def split: option.splits)
  show ?thesis
    unfolding eq
    by (intro bind_mono option.const_mono if_mono replay_mono assms)
qed

text \<open>
  \<open>table_insert\<close>. The step is computed before the load-factor test and the call of
  \<open>grow_table\<close>, whose result is not looked at.
\<close>

partial_function (option) table_insert ::
  "(nat \<Rightarrow> bool) \<Rightarrow> table \<Rightarrow> key_ptr \<Rightarrow> nat \<Rightarrow> data_ptr \<Rightarrow> (int \<times> table) option"
where
  "table_insert calloc ta k klen d =
     (let r = \<lparr>hash = hash_fn ta k klen, key = k, data = d, keylen = klen,
                probepos = 0, alive = True\<rparr>;
          step = step_of ta (hash r)
      in if unat (elements ta) = size_tbl ta then Some (- 1, ta)
         else
           Option.bind
             (if load_factor_exceeded (elements ta) (size_tbl ta)
              then Option.bind (grow_table_with (table_insert calloc) calloc ta)
                     (\<lambda>(_, ta'). Some ta')
              else Some ta)
             (\<lambda>ta. Option.bind (insert_loop ta r step)
                (\<lambda>(ex, ta, r).
                   case ex of
                     Return v \<Rightarrow> Some (v, ta)
                   | Break \<Rightarrow>
                       Some (0, ta\<lparr>elements := elements ta + 1,
                                   maxprobe := max (probepos r) (maxprobe ta)\<rparr>))))"

definition grow_table :: "(nat \<Rightarrow> bool) \<Rightarrow> table \<Rightarrow> (int \<times> table) option" where
  "grow_table calloc ta = grow_table_with (table_insert calloc) calloc ta"

subsection \<open>Creation, lookup, removal\<close>

definition TABLE_SIZE_DEFAULT :: nat where
  "TABLE_SIZE_DEFAULT = 547"

text \<open>
  \<open>table_new\<close>: \<open>malloc_ok\<close> tells whether the allocation of the struct succeeds,
  \<open>calloc\<close> that of the slots; \<open>None\<close> is the \<open>NULL\<close> the source returns otherwise.
\<close>

definition table_new ::
  "bool \<Rightarrow> (nat \<Rightarrow> bool) \<Rightarrow> hash_func option \<Rightarrow> cmp_func option \<Rightarrow> table option"
where
  "table_new malloc_ok calloc h c =
     (if \<not> malloc_ok then None
      else if \<not> calloc TABLE_SIZE_DEFAULT then None
      else Some \<lparr>slots = replicate TABLE_SIZE_DEFAULT zero_entry,
                 size_tbl = TABLE_SIZE_DEFAULT,
                 step_prime = next_prime_step TABLE_SIZE_DEFAULT,
                 totalweight = 0, maxprobe = 0, elements = 0,
                 hash_fn = (case h of None \<Rightarrow> table_hash | Some f \<Rightarrow> f),
                 cmp_fn = (case c of None \<Rightarrow> table_cmp | Some f \<Rightarrow> f)\<rparr>)"

text \<open>\<open>table_get\<close> returns the status and the value stored through \<open>data_ptr\<close>.\<close>

definition table_get :: "table \<Rightarrow> key_ptr \<Rightarrow> nat \<Rightarrow> (int \<times> data_ptr) option" where
  "table_get ta k klen =
     (case internal_search ta k klen of
        None \<Rightarrow> None
      | Some pos \<Rightarrow>
          if 0 < pos then Some (0, data (slots ta ! nat pos))
          else Some (- 1, NULL))"

definition table_remove :: "table \<Rightarrow> key_ptr \<Rightarrow> nat \<Rightarrow> (int \<times> table) option" where
  "table_remove ta k klen =
     (case internal_search ta k klen of
        None \<Rightarrow> None
      | Some pos \<Rightarrow>
          if 0 < pos then
            (let tb = (slots ta)[nat pos := (slots ta ! nat pos)\<lparr>alive := False\<rparr>]
             in Some (0, ta\<lparr>slots := tb,
                           elements := elements ta - 1,
                           totalweight := totalweight ta - probepos (tb ! nat pos)\<rparr>))
          else Some (- 1, ta))"

text \<open>What a non-negative result of the search promises about the slot it names.\<close>

definition hit :: "table \<Rightarrow> key_ptr \<Rightarrow> nat \<Rightarrow> int \<Rightarrow> bool" where
  "hit ta k klen pos \<longleftrightarrow>
     0 \<le> pos \<and> (0 < size_tbl ta \<longrightarrow> nat pos < size_tbl ta)
     \<and> alive (slots ta ! nat pos) \<and> cmp_fn ta k (key (slots ta ! nat pos)) klen = 0"

section \<open>Invariants and reachable states\<close>

text \<open>
  The weight of the live entries: the sum of \<open>probepos\<close> over the entries that are
  alive, in the arithmetic of \<open>unsigned int\<close>.
\<close>

definition live_weight :: "entry list \<Rightarrow> u32" where
  "live_weight xs = sum_list (map probepos (filter alive xs))"

definition weight :: "entry \<Rightarrow> u32" where
  "weight e = (if alive e then probepos e else 0)"

text \<open>The array has \<open>size\<close> slots, and at least one.\<close>

definition shape_ok :: "table \<Rightarrow> bool" where
  "shape_ok ta \<longleftrightarrow> length (slots ta) = size_tbl ta \<and> 0 < size_tbl ta"

definition weight_ok :: "table \<Rightarrow> bool" where
  "weight_ok ta \<longleftrightarrow> totalweight ta = live_weight (slots ta)"


text \<open>
  The table states that calls of the interface reach from a table that \<open>table_new\<close>
  returns; a growth is a step of its own as well as a part of an insertion.
\<close>

inductive reachable :: "table \<Rightarrow> bool" where
  new: "table_new m calloc h c = Some ta \<Longrightarrow> reachable ta"
| insert: "reachable ta \<Longrightarrow> table_insert calloc ta k klen d = Some (rv, ta') \<Longrightarrow> reachable ta'"
| remove: "reachable ta \<Longrightarrow> table_remove ta k klen = Some (rv, ta') \<Longrightarrow> reachable ta'"
| grow: "reachable ta \<Longrightarrow> grow_table calloc ta = Some (rv, ta') \<Longrightarrow> reachable ta'"

text \<open>
  The loop invariant: the total weight is the weight of the live entries plus the
  probe position of the record in flight.
\<close>

definition walk_inv :: "table \<Rightarrow> entry \<Rightarrow> bool" where
  "walk_inv ta r \<longleftrightarrow>
     shape_ok ta \<and> alive r \<and> totalweight ta = live_weight (slots ta) + probepos r"

definition table_inv :: "table \<Rightarrow> bool" where
  "table_inv ta \<longleftrightarrow> shape_ok ta \<and> weight_ok ta"

text \<open>
  The fields that the loop of \<open>table_insert\<close> never writes, and the length of the array.
\<close>

definition same_frame :: "table \<Rightarrow> table \<Rightarrow> bool" where
  "same_frame ta tb \<longleftrightarrow>
     size_tbl tb = size_tbl ta \<and> step_prime tb = step_prime ta \<and> elements tb = elements ta
     \<and> hash_fn tb = hash_fn ta \<and> cmp_fn tb = cmp_fn ta
     \<and> length (slots tb) = length (slots ta)"





section \<open>Test inputs\<close>

text \<open>
  The table that \<open>table_new\<close> returns with the default hash and comparison, the key
  \<open>"fbaa"\<close>, whose first probe in that table is slot 0, and the table after that key
  is inserted.
\<close>

definition T0 :: table where
  "T0 = \<lparr>slots = replicate 547 zero_entry, size_tbl = 547, step_prime = 541,
          totalweight = 0, maxprobe = 0, elements = 0, hash_fn = table_hash, cmp_fn = table_cmp\<rparr>"

definition k_fbaa :: key_ptr where
  "k_fbaa = Some [102, 98, 97, 97]"

definition T_fbaa :: table where
  "T_fbaa = T0\<lparr>slots := (slots T0)[0 := \<lparr>hash = 6385216495, key = k_fbaa, data = 7, keylen = 4,
                                            probepos = 1, alive = True\<rparr>],
               totalweight := 1, maxprobe := 1, elements := 1\<rparr>"

text \<open>The key \<open>"aa"\<close> and the table after it is inserted in the fresh table.\<close>

definition k_aa :: key_ptr where
  "k_aa = Some [97, 97]"

definition e_aa :: entry where
  "e_aa = \<lparr>hash = 5863207, key = k_aa, data = 1, keylen = 2, probepos = 1, alive = True\<rparr>"

definition T1 :: table where
  "T1 = T0\<lparr>slots := (slots T0)[65 := e_aa], totalweight := 1, maxprobe := 1, elements := 1\<rparr>"

text \<open>
  The keys \<open>"ab"\<close> and \<open>"ac"\<close>, whose first probe is slot 65 as for \<open>"aa"\<close>, and the
  tables after \<open>"ab"\<close> is inserted (\<open>T2\<close>), \<open>"aa"\<close> is removed (\<open>T3\<close>), \<open>"ac"\<close> is
  inserted (\<open>T4\<close>) and \<open>"ab"\<close> is inserted again with other data (\<open>T5\<close>).
\<close>

definition k_ab :: key_ptr where
  "k_ab = Some [97, 98]"

definition k_ac :: key_ptr where
  "k_ac = Some [97, 99]"

definition e_ab :: "data_ptr \<Rightarrow> u32 \<Rightarrow> entry" where
  "e_ab d p = \<lparr>hash = 5863208, key = k_ab, data = d, keylen = 2, probepos = p, alive = True\<rparr>"

definition e_ac :: "u32 \<Rightarrow> entry" where
  "e_ac p = \<lparr>hash = 5863209, key = k_ac, data = 3, keylen = 2, probepos = p, alive = True\<rparr>"

definition T2 :: table where
  "T2 = T0\<lparr>slots := (slots T0)[65 := e_aa, 215 := e_ab 2 2],
          totalweight := 3, maxprobe := 2, elements := 2\<rparr>"

definition T3 :: table where
  "T3 = T0\<lparr>slots := (slots T0)[65 := e_aa\<lparr>alive := False\<rparr>, 215 := e_ab 2 2],
          totalweight := 2, maxprobe := 2, elements := 1\<rparr>"

definition T4 :: table where
  "T4 = T0\<lparr>slots := (slots T0)[65 := e_ac 1, 215 := e_ab 2 2],
          totalweight := 3, maxprobe := 2, elements := 2\<rparr>"

definition T5 :: table where
  "T5 = T0\<lparr>slots := (slots T0)[65 := e_ab 4 1, 214 := e_ac 2, 215 := e_ab 2 2],
          totalweight := 5, maxprobe := 2, elements := 3\<rparr>"


text \<open>
  A table with a hash supplied by the caller: the hash of a key is 736301 times its
  length (\<open>736301 = 541 * 1361\<close>), and the key of length \<open>n\<close> is \<open>n\<close> bytes \<open>'a'\<close>.
  \<open>table_fill N\<close> is the table after the keys of lengths 1 to \<open>N\<close> are inserted in a
  fresh table, each with its length as data: the key of length \<open>n\<close> is in slot
  \<open>slot_a n\<close> at probe position 1.
\<close>

definition hash_len :: hash_func where
  "hash_len k n = 736301 * of_nat n"

definition key_n :: "nat \<Rightarrow> key_ptr" where
  "key_n n = Some (replicate n 97)"

definition ent_n :: "nat \<Rightarrow> entry" where
  "ent_n n = \<lparr>hash = hash_len (key_n n) n, key = key_n n, data = n, keylen = n,
              probepos = 1, alive = True\<rparr>"

definition slot_a :: "nat \<Rightarrow> nat" where
  "slot_a n = (736301 * n + 541) mod 547"

fun slots_fill :: "nat \<Rightarrow> entry list" where
  "slots_fill 0 = replicate 547 zero_entry"
| "slots_fill (Suc N) = (slots_fill N)[slot_a (Suc N) := ent_n (Suc N)]"

definition table_fill :: "nat \<Rightarrow> table" where
  "table_fill N = \<lparr>slots = slots_fill N, size_tbl = 547, step_prime = 541,
                    totalweight = of_nat N, maxprobe = (if N = 0 then 0 else 1),
                    elements = of_nat N, hash_fn = hash_len, cmp_fn = table_cmp\<rparr>"


text \<open>
  The table after \<open>table_fill N\<close> has grown to 1367 slots: the key of length \<open>n\<close> is in
  slot \<open>slot_b n\<close> at probe position 1. \<open>grown_part S tb\<close> says that \<open>tb\<close> is the grown
  table holding the keys whose lengths are in \<open>S\<close>, as it is in the middle of the replay.
  \<open>table_stale\<close> is the table after the key of length 521 is inserted into
  \<open>table_fill 520\<close>: that insertion grows the table and puts the key in slot 354.
\<close>

definition slot_b :: "nat \<Rightarrow> nat" where
  "slot_b n = (736301 * n + 1361) mod 1367"

fun slots_grow :: "nat \<Rightarrow> entry list" where
  "slots_grow 0 = replicate 1367 zero_entry"
| "slots_grow (Suc N) = (slots_grow N)[slot_b (Suc N) := ent_n (Suc N)]"

definition table_grow :: "nat \<Rightarrow> table" where
  "table_grow N = \<lparr>slots = slots_grow N, size_tbl = 1367, step_prime = 1361,
                    totalweight = of_nat N, maxprobe = (if N = 0 then 0 else 1),
                    elements = of_nat N, hash_fn = hash_len, cmp_fn = table_cmp\<rparr>"

definition grown_part :: "nat set \<Rightarrow> table \<Rightarrow> bool" where
  "grown_part S tb \<longleftrightarrow>
     size_tbl tb = 1367 \<and> step_prime tb = 1361 \<and> hash_fn tb = hash_len \<and> cmp_fn tb = table_cmp
     \<and> length (slots tb) = 1367
     \<and> elements tb = of_nat (card S) \<and> totalweight tb = of_nat (card S)
     \<and> maxprobe tb = (if S = {} then 0 else 1)
     \<and> (\<forall>n\<in>S. slots tb ! slot_b n = ent_n n)
     \<and> (\<forall>j<1367. (\<forall>n\<in>S. slot_b n \<noteq> j) \<longrightarrow> slots tb ! j = zero_entry)"

definition table_stale :: table where
  "table_stale = (table_grow 520)\<lparr>slots := (slots_grow 520)[354 := ent_n 521],
                    totalweight := 521, elements := 521\<rparr>"


section \<open>The loop of \<open>table_insert\<close> in the shape of the source\<close>

lemma insert_loop_unfold:
  "insert_loop ta r step =
     (let r = r\<lparr>probepos := probepos r + 1\<rparr>;
          ta = ta\<lparr>totalweight := totalweight ta + 1\<rparr>;
          i = slot_index (hash r) (ucast (probepos r)) step (size_tbl ta);
          e = slots ta ! i
      in if \<not> alive e then
           (if key e \<noteq> None then
              (case internal_search ta (key r) (keylen r) of
                 None \<Rightarrow> None
               | Some pos \<Rightarrow>
                   if pos \<noteq> - 1 then
                     (let tb = (slots ta)[i := r];
                          tb = tb[nat pos := (tb ! nat pos)\<lparr>alive := False\<rparr>]
                      in Some (Return 0,
                           ta\<lparr>slots := tb,
                              totalweight := totalweight ta - probepos (tb ! nat pos)\<rparr>, r))
                   else Some (Break, ta\<lparr>slots := (slots ta)[i := r]\<rparr>, r))
            else Some (Break, ta\<lparr>slots := (slots ta)[i := r]\<rparr>, r))
         else if probepos e < probepos r \<or> (probepos e = probepos r \<and> hash r < hash e) then
           insert_loop (ta\<lparr>maxprobe := max (probepos r) (maxprobe ta), slots := (slots ta)[i := r]\<rparr>)
             e (step_of ta (hash e))
         else if probepos e = probepos r \<and> hash r = hash e
                 \<and> strncmp (bytes_of (key r)) (bytes_of (key e)) (keylen r) = 0 then
           Some (Return 0,
             ta\<lparr>slots := (slots ta)[i := e\<lparr>data := data r\<rparr>],
                totalweight := totalweight ta - probepos r\<rparr>, r)
         else insert_loop ta r step)"
proof -
  define r1 where "r1 = r\<lparr>probepos := probepos r + 1\<rparr>"
  define t1 where "t1 = ta\<lparr>totalweight := totalweight ta + 1\<rparr>"
  define i where "i = slot_index (hash r1) (ucast (probepos r1)) step (size_tbl t1)"
  define e where "e = slots t1 ! i"
  note defs = r1_def [symmetric] t1_def [symmetric] i_def [symmetric] e_def [symmetric]
  have walk: "probe_walk ta r step =
     (if \<not> alive e then Some (t1, r1, i)
      else if probepos e < probepos r1 \<or> (probepos e = probepos r1 \<and> hash r1 < hash e) then
        probe_walk (t1\<lparr>maxprobe := max (probepos r1) (maxprobe t1), slots := (slots t1)[i := r1]\<rparr>)
          e (step_of t1 (hash e))
      else if probepos e = probepos r1 \<and> hash r1 = hash e
              \<and> strncmp (bytes_of (key r1)) (bytes_of (key e)) (keylen r1) = 0 then
        Some (t1, r1, i)
      else probe_walk t1 r1 step)"
    by (subst probe_walk.simps) (simp only: Let_def defs)
  have il: "insert_loop t1' r' st' = (case probe_walk t1' r' st' of
        None \<Rightarrow> None | Some (ta', r', i) \<Rightarrow> insert_exit ta' r' i)" for t1' r' st'
    by (simp add: insert_loop_def)
  show ?thesis
    apply (simp only: Let_def defs)
    apply (subst il)
    apply (subst walk)
    apply (auto simp add: insert_exit_def Let_def il simp flip: e_def split: option.splits)
    done
qed

section \<open>Arithmetic\<close>

lemma lin_inv_mod:
  fixes a b c d e n :: nat
  assumes ba: "(b * a) mod c = 1" and bde: "(b * (d + e)) mod c = 0" and n: "n < c"
  shows "(b * ((a * n + d) mod c + e)) mod c = n"
proof -
  have "(b * ((a * n + d) mod c + e)) mod c = (b * (((a * n + d) mod c + e) mod c)) mod c"
    by (simp add: mod_mult_right_eq)
  also have "((a * n + d) mod c + e) mod c = (a * n + d + e) mod c"
    by (simp add: mod_add_left_eq)
  also have "(b * ((a * n + d + e) mod c)) mod c = (b * (a * n + d + e)) mod c"
    by (simp add: mod_mult_right_eq)
  also have "b * (a * n + d + e) = (b * a) * n + b * (d + e)"
    by (simp add: algebra_simps)
  also have "((b * a) * n + b * (d + e)) mod c = (((b * a) * n) mod c + (b * (d + e)) mod c) mod c"
    by (simp add: mod_add_eq)
  also have "\<dots> = ((b * a) * n) mod c"
    by (simp add: bde)
  also have "\<dots> = (((b * a) mod c) * n) mod c"
    by (simp add: mod_mult_left_eq)
  also have "\<dots> = n"
    using ba n by simp
  finally show ?thesis .
qed

lemma unat_of_nat_u64: "n < 18446744073709551616 \<Longrightarrow> unat (of_nat n :: u64) = n"
  by (simp add: unat_of_nat)

lemma unat_of_nat_u32: "n < 4294967296 \<Longrightarrow> unat (of_nat n :: u32) = n"
  by (simp add: unat_of_nat)

lemma unat_inc_le: "unat (x + 1) \<le> unat x + 1" for x :: u32
proof -
  have "unat (x + 1) = (unat x + 1) mod 2 ^ 32"
    by (simp add: unat_word_ariths)
  also have "\<dots> \<le> unat x + 1"
    by (rule mod_less_eq_dividend)
  finally show ?thesis .
qed

lemma pow2_eq: "pow2 k = 2 ^ k"
  by (induction k) simp_all

lemma bitlen_bounds: "0 < n \<Longrightarrow> 2 ^ (bitlen n - 1) \<le> n \<and> n < 2 ^ bitlen n"
proof (induction n rule: bitlen.induct)
  case (1 n)
  show ?case
  proof (cases "n div 2 = 0")
    case True
    with 1(2) have "n = 1" by (simp add: div_eq_0_iff) 
    then show ?thesis by (simp add: bitlen.simps [of "Suc 0"] bitlen.simps [of 0])
  next
    case False
    with 1 have ih: "2 ^ (bitlen (n div 2) - 1) \<le> n div 2 \<and> n div 2 < 2 ^ bitlen (n div 2)"
      by simp
    from False have pos: "0 < bitlen (n div 2)"
      by (simp add: bitlen.simps [of "n div 2"])
    have b: "bitlen n = Suc (bitlen (n div 2))"
      using 1(2) by (simp add: bitlen.simps [of n])
    define p :: nat where "p = 2 ^ (bitlen (n div 2) - 1)"
    from pos have p2: "(2::nat) ^ bitlen (n div 2) = 2 * p"
      by (cases "bitlen (n div 2)") (simp_all add: p_def)
    from ih have "p \<le> n div 2" "n div 2 < 2 * p"
      by (simp_all add: p_def p2)
    then have "2 * p \<le> n" "n < 2 * (2 * p)" by linarith+
    then show ?thesis by (simp add: b p2)
  qed
qed

lemma float_of_nat_small: "n < 16777216 \<Longrightarrow> float_of_nat n = n"
  by (simp add: float_of_nat_def)

lemma float_of_nat_large:
  assumes "16777216 \<le> n"
  shows "16777216 \<le> float_of_nat n"
proof -
  define k where "k = bitlen n - 24"
  from assms have pos: "0 < n" by simp
  have bl: "24 < bitlen n"
  proof (rule ccontr)
    assume "\<not> 24 < bitlen n"
    then have "(2::nat) ^ bitlen n \<le> 2 ^ 24"
      by (intro power_increasing) simp_all
    with bitlen_bounds [OF pos] assms show False by simp
  qed
  then have k: "bitlen n - 1 = 23 + k" and k1: "1 \<le> k" by (simp_all add: k_def)
  have "(2::nat) ^ (23 + k) \<le> n"
    by (metis k bitlen_bounds pos)
  then have "2 ^ 23 * 2 ^ k \<le> n"
    by (simp only: power_add)
  then have q: "2 ^ 23 \<le> n div 2 ^ k"
    by (simp add: less_eq_div_iff_mult_less_eq)
  have "(2::nat) ^ 1 \<le> 2 ^ k"
    using k1 by (intro power_increasing) simp_all
  with q have "(2::nat) ^ 23 * 2 ^ 1 \<le> n div 2 ^ k * 2 ^ k"
    by (intro mult_mono) simp_all
  then have low: "16777216 \<le> n div 2 ^ k * 2 ^ k" by simp
  have "n div 2 ^ k * 2 ^ k \<le> float_of_nat n"
    using assms by (simp add: float_of_nat_def Let_def pow2_eq k_def [symmetric])
  with low show ?thesis by simp
qed

lemma is_prime_anchor: "is_prime 5242883"
  by (simp add: is_prime_def is_prime_loop.simps int_square_def)

section \<open>Evaluation\<close>

lemma djb2_numeral [simp]:
  "djb2 h bs (numeral n) = djb2 ((push_bit 5 h + h) + scast (byte0 bs)) (tl bs) (pred_numeral n)"
  by (simp add: numeral_eq_Suc)

lemma strncmp_numeral [simp]:
  "strncmp a b (numeral n) =
     (let c1 = byte0 a; c2 = byte0 b
      in if c1 \<noteq> c2 then uint c1 - uint c2
         else if c1 = 0 then 0
         else strncmp (tl a) (tl b) (pred_numeral n))"
  by (simp add: numeral_eq_Suc)

lemma h_fbaa: "table_hash (Some [102, 98, 97, 97]) 4 = 6385216495"
  by (simp add: table_hash_def bytes_of_def byte0_def)

lemma nps: "next_prime_step 547 = 541"
  by (simp add: next_prime_step_def dec64_def next_prime_down.simps is_prime_def is_prime_loop.simps int_square_def)

lemma si: "slot_index 6385216495 1 (of_nat (541 - unat (6385216495 :: u64) mod 541)) 547 = 0"
  by (simp add: slot_index_def)

lemma cmp1: "table_cmp (Some [102, 98, 97, 97]) (Some [102, 98, 97, 97]) 4 = 0"
  by (simp add: table_cmp_def bytes_of_def byte0_def)

lemma lfe: "\<not> load_factor_exceeded 519 547" "load_factor_exceeded 520 547"
  by (simp_all add: load_factor_exceeded_def float_of_nat_def)

lemma new_T0: "table_new True (\<lambda>_. True) None None = Some T0"
  by (simp add: table_new_def TABLE_SIZE_DEFAULT_def nps T0_def)

lemma ins_fbaa: "table_insert (\<lambda>_. True) T0 k_fbaa 4 7 = Some (0, T_fbaa)"
  apply (subst table_insert.simps)
  apply (simp add: T0_def T_fbaa_def k_fbaa_def h_fbaa load_factor_exceeded_def float_of_nat_def
      insert_loop_def step_of_def)
  apply (subst probe_walk.simps)
  apply (simp add: slot_index_def zero_entry_def insert_exit_def)
  done

lemma search_fbaa: "internal_search T_fbaa k_fbaa 4 = Some 0"
  apply (simp add: internal_search_def T_fbaa_def T0_def k_fbaa_def h_fbaa step_of_def)
  apply (subst search_loop.simps)
  apply (simp add: slot_index_def table_cmp_def bytes_of_def byte0_def)
  done

lemma h_aa: "table_hash k_aa 2 = 5863207"
  by (simp add: table_hash_def bytes_of_def byte0_def k_aa_def)

lemma ins_aa: "table_insert (\<lambda>_. True) T0 k_aa 2 1 = Some (0, T1)"
  apply (subst table_insert.simps)
  apply (simp add: T0_def T1_def e_aa_def h_aa load_factor_exceeded_def float_of_nat_def
      insert_loop_def step_of_def)
  apply (subst probe_walk.simps)
  apply (simp add: slot_index_def zero_entry_def insert_exit_def)
  done

lemma search_aa: "internal_search T1 k_aa 2 = Some 65"
  apply (simp add: internal_search_def T1_def T0_def h_aa step_of_def)
  apply (subst search_loop.simps)
  apply (simp add: slot_index_def e_aa_def k_aa_def table_cmp_def bytes_of_def byte0_def)
  done

lemma h_ab: "table_hash k_ab 2 = 5863208"
  by (simp add: table_hash_def bytes_of_def byte0_def k_ab_def)

lemma h_ac: "table_hash k_ac 2 = 5863209"
  by (simp add: table_hash_def bytes_of_def byte0_def k_ac_def)

lemma list_update_order:
  "j < i \<Longrightarrow> xs[i := x, j := y] = xs[j := y, i := x]"
  by (simp add: list_update_swap)

lemmas scenario_defs = T0_def T1_def T2_def T3_def T4_def T5_def e_aa_def e_ab_def e_ac_def
  k_aa_def k_ab_def k_ac_def zero_entry_def

lemmas eval_defs = load_factor_exceeded_def float_of_nat_def step_of_def slot_index_def
  table_cmp_def bytes_of_def byte0_def

lemma ins_ab: "table_insert (\<lambda>_. True) T1 k_ab 2 2 = Some (0, T2)"
  apply (subst table_insert.simps)
  apply (simp add: T1_def T0_def h_ab insert_loop_def eval_defs)
  apply (subst probe_walk.simps)
  apply (simp add: eval_defs e_aa_def)
  apply (subst probe_walk.simps)
  apply (simp add: eval_defs insert_exit_def scenario_defs list_update_order)
  done

lemma search_aa_T2: "internal_search T2 k_aa 2 = Some 65"
  apply (simp add: internal_search_def T2_def T0_def h_aa)
  apply (subst search_loop.simps)
  apply (simp add: eval_defs scenario_defs)
  done

lemma rem_aa: "table_remove T2 k_aa 2 = Some (0, T3)"
  by (simp add: table_remove_def search_aa_T2) (simp add: scenario_defs list_update_order)

lemma search_ac_T3: "internal_search (T3\<lparr>totalweight := 3\<rparr>) k_ac 2 = Some (- 1)"
  apply (simp add: internal_search_def T3_def T0_def h_ac)
  apply (subst search_loop.simps)
  apply (simp add: eval_defs scenario_defs)
  apply (subst search_loop.simps)
  apply (simp add: eval_defs scenario_defs)
  apply (subst search_loop.simps)
  apply (simp add: eval_defs scenario_defs)
  apply (subst search_loop.simps)
  apply (simp add: eval_defs scenario_defs)
  done

lemma ins_ac: "table_insert (\<lambda>_. True) T3 k_ac 2 3 = Some (0, T4)"
  apply (subst table_insert.simps)
  apply (simp add: T3_def T0_def h_ac insert_loop_def eval_defs)
  apply (subst probe_walk.simps)
  apply (simp add: eval_defs e_aa_def insert_exit_def Let_def)
  apply (simp add: search_ac_T3 [unfolded scenario_defs, simplified]
      scenario_defs list_update_order)
  done

lemma ins_ab_again: "table_insert (\<lambda>_. True) T4 k_ab 2 4 = Some (0, T5)"
  apply (subst table_insert.simps)
  apply (simp add: T4_def T0_def h_ab insert_loop_def eval_defs)
  apply (subst probe_walk.simps)
  apply (simp add: eval_defs e_ac_def)
  apply (subst probe_walk.simps)
  apply (simp add: eval_defs insert_exit_def scenario_defs list_update_order)
  done

lemma is_prime_1367: "is_prime 1367"
  by (simp add: is_prime_def is_prime_loop.simps int_square_def)

lemma next_prime_size_547: "next_prime_size 547 = Some 1367"
  unfolding next_prime_size_def scale_size_def
  by (subst next_prime_up.simps) (simp add: float_of_nat_def is_prime_1367)


lemma reach_T0: "reachable T0"
  by (rule reachable.new [OF new_T0])

lemma reach_T1: "reachable T1"
  by (rule reachable.insert [OF reach_T0 ins_aa])

lemma reach_T2: "reachable T2"
  by (rule reachable.insert [OF reach_T1 ins_ab])

lemma reach_T3: "reachable T3"
  by (rule reachable.remove [OF reach_T2 rem_aa])

lemma reach_T4: "reachable T4"
  by (rule reachable.insert [OF reach_T3 ins_ac])

lemma reach_T5: "reachable T5"
  by (rule reachable.insert [OF reach_T4 ins_ab_again])

lemma slot_a_inj: "slot_a n = slot_a m \<Longrightarrow> n < 547 \<Longrightarrow> m < 547 \<Longrightarrow> n = m"
  using lin_inv_mod [of 533 736301 547 541 6 n] lin_inv_mod [of 533 736301 547 541 6 m]
  by (simp add: slot_a_def)

lemma length_slots_fill [simp]: "length (slots_fill N) = 547"
  by (induction N) simp_all

lemma slots_fill_free:
  "j < 547 \<Longrightarrow> (\<And>n. 1 \<le> n \<Longrightarrow> n \<le> N \<Longrightarrow> slot_a n \<noteq> j) \<Longrightarrow> slots_fill N ! j = zero_entry"
proof (induction N)
  case 0
  then show ?case by simp
next
  case (Suc N)
  from Suc.prems(2) [of "Suc N"] have "slot_a (Suc N) \<noteq> j" by simp
  moreover have "slots_fill N ! j = zero_entry"
    by (rule Suc.IH [OF Suc.prems(1)]) (simp add: Suc.prems(2))
  ultimately show ?case by simp
qed

lemma slots_fill_at:
  "1 \<le> n \<Longrightarrow> n \<le> N \<Longrightarrow> N < 547 \<Longrightarrow> slots_fill N ! slot_a n = ent_n n"
proof (induction N)
  case 0
  then show ?case by simp
next
  case (Suc N)
  have sl: "slot_a (Suc N) < 547" by (simp add: slot_a_def)
  show ?case
  proof (cases "n = Suc N")
    case True
    with sl show ?thesis by simp
  next
    case False
    with Suc.prems have "n \<le> N" "n < 547" "Suc N < 547" by simp_all
    with slot_a_inj [of "Suc N" n] False have "slot_a (Suc N) \<noteq> slot_a n" by auto
    with Suc.IH \<open>n \<le> N\<close> Suc.prems show ?thesis by simp
  qed
qed

lemma unat_hash_len: "n < 4294967296 \<Longrightarrow> unat (hash_len k n) = 736301 * n"
proof -
  assume n: "n < 4294967296"
  have "hash_len k n = of_nat (736301 * n)"
    by (simp add: hash_len_def)
  then show ?thesis
    using n by (simp add: unat_of_nat_u64 del: of_nat_mult)
qed

lemma step_of_hash_len:
  "step_prime ta = 541 \<Longrightarrow> n < 4294967296 \<Longrightarrow> step_of ta (hash_len k n) = 541"
  by (simp add: step_of_def unat_hash_len)

lemma slot_index_hash_len:
  assumes "n < 4294967296"
  shows "slot_index (hash_len k n) 1 541 547 = slot_a n"
proof -
  have "hash_len k n + 1 * 541 = (of_nat (736301 * n + 541) :: u64)"
    by (simp add: hash_len_def)
  then have "unat (hash_len k n + 1 * 541) = 736301 * n + 541"
    using assms by (simp add: unat_of_nat_u64 del: of_nat_mult of_nat_add)
  then show ?thesis by (simp add: slot_index_def slot_a_def)
qed

lemma load_547: "N < 16777216 \<Longrightarrow> load_factor_exceeded (of_nat N) 547 \<longleftrightarrow> 520 \<le> N"
  by (auto simp: load_factor_exceeded_def float_of_nat_def unat_of_nat_u32)

lemma grow_table_with_fails:
  "next_prime_size (size_tbl ta) = Some n \<Longrightarrow> \<not> calloc n \<Longrightarrow>
     grow_table_with ins calloc ta = Some (- 1, ta)"
  by (simp add: grow_table_with_def)

lemma probe_walk_dead:
  assumes "i = slot_index (hash r) (ucast (probepos r + 1)) step (size_tbl ta)"
    and "\<not> alive (slots ta ! i)"
  shows "probe_walk ta r step
     = Some (ta\<lparr>totalweight := totalweight ta + 1\<rparr>, r\<lparr>probepos := probepos r + 1\<rparr>, i)"
  using assms by (subst probe_walk.simps) (simp add: Let_def)

lemma insert_exit_pristine:
  assumes "\<not> alive (slots ta ! i)" and "key (slots ta ! i) = None"
  shows "insert_exit ta r i = Some (Break, ta\<lparr>slots := (slots ta)[i := r]\<rparr>, r)"
  using assms by (simp add: insert_exit_def)

lemma table_insert_unfold:
  assumes "unat (elements ta) \<noteq> size_tbl ta"
    and "(if load_factor_exceeded (elements ta) (size_tbl ta)
          then Option.bind (grow_table_with (table_insert calloc) calloc ta) (\<lambda>(_, ta'). Some ta')
          else Some ta) = Some tg"
    and "r = \<lparr>hash = hash_fn ta k klen, key = k, data = d, keylen = klen,
               probepos = 0, alive = True\<rparr>"
    and "insert_loop tg r (step_of ta (hash r)) = Some (ex, ta', r')"
  shows "table_insert calloc ta k klen d =
     (case ex of
        Return v \<Rightarrow> Some (v, ta')
      | Break \<Rightarrow> Some (0, ta'\<lparr>elements := elements ta' + 1,
                            maxprobe := max (probepos r') (maxprobe ta')\<rparr>))"
  using assms(1,2,4) unfolding assms(3)
  by (subst table_insert.simps) (simp add: Let_def)

lemma insert_fill_step:
  assumes N: "N < 546" and g: "N < 520 \<or> \<not> calloc 1367"
  shows "table_insert calloc (table_fill N) (key_n (Suc N)) (Suc N) (Suc N)
     = Some (0, table_fill (Suc N))"
proof -
  define r where "r = (ent_n (Suc N))\<lparr>probepos := 0\<rparr>"
  have sl: "slot_a (Suc N) < 547" by (simp add: slot_a_def)
  have free: "slots_fill N ! slot_a (Suc N) = zero_entry"
  proof (rule slots_fill_free [OF sl])
    show "slot_a n \<noteq> slot_a (Suc N)" if "1 \<le> n" "n \<le> N" for n
      using slot_a_inj [of n "Suc N"] that N by auto
  qed
  have full: "unat (elements (table_fill N)) \<noteq> size_tbl (table_fill N)"
    using N by (simp add: table_fill_def unat_of_nat_u32)
  have pre: "(if load_factor_exceeded (elements (table_fill N)) (size_tbl (table_fill N))
        then Option.bind (grow_table_with (table_insert calloc) calloc (table_fill N))
               (\<lambda>(_, ta'). Some ta')
        else Some (table_fill N)) = Some (table_fill N)"
  proof (cases "N < 520")
    case True
    then show ?thesis by (simp add: table_fill_def load_547)
  next
    case False
    with g have "\<not> calloc 1367" by simp
    then have "grow_table_with (table_insert calloc) calloc (table_fill N) = Some (- 1, table_fill N)"
      by (intro grow_table_with_fails [where n = 1367]) (simp_all add: table_fill_def next_prime_size_547)
    then show ?thesis by simp
  qed
  have r: "r = \<lparr>hash = hash_fn (table_fill N) (key_n (Suc N)) (Suc N), key = key_n (Suc N),
            data = Suc N, keylen = Suc N, probepos = 0, alive = True\<rparr>"
    by (simp add: r_def ent_n_def table_fill_def)
  have hr: "hash r = hash_len (key_n (Suc N)) (Suc N)"
    by (simp add: r_def ent_n_def)
  have st: "step_of (table_fill N) (hash r) = 541"
    unfolding hr using N by (intro step_of_hash_len) (simp_all add: table_fill_def)
  have i: "slot_a (Suc N) = slot_index (hash r) (ucast (probepos r + 1)) 541 (size_tbl (table_fill N))"
    unfolding hr using N slot_index_hash_len [of "Suc N" "key_n (Suc N)"]
    by (simp add: r_def table_fill_def)
  have dead: "\<not> alive (slots (table_fill N) ! slot_a (Suc N))"
    "key (slots (table_fill N) ! slot_a (Suc N)) = None"
    by (simp_all add: table_fill_def free zero_entry_def)
  have r1: "r\<lparr>probepos := probepos r + 1\<rparr> = ent_n (Suc N)"
    by (simp add: r_def ent_n_def)
  have walk: "probe_walk (table_fill N) r 541
      = Some ((table_fill N)\<lparr>totalweight := totalweight (table_fill N) + 1\<rparr>, ent_n (Suc N),
          slot_a (Suc N))"
    using probe_walk_dead [OF i dead(1)] by (simp only: r1)
  have exit: "insert_exit ((table_fill N)\<lparr>totalweight := totalweight (table_fill N) + 1\<rparr>)
        (ent_n (Suc N)) (slot_a (Suc N))
      = Some (Break, (table_fill N)\<lparr>totalweight := totalweight (table_fill N) + 1,
            slots := slots_fill (Suc N)\<rparr>, ent_n (Suc N))"
    using dead by (subst insert_exit_pristine) (simp_all add: table_fill_def)
  have loop: "insert_loop (table_fill N) r (step_of (table_fill N) (hash r))
      = Some (Break, (table_fill N)\<lparr>totalweight := totalweight (table_fill N) + 1,
            slots := slots_fill (Suc N)\<rparr>, ent_n (Suc N))"
    by (simp add: insert_loop_def st walk exit)
  have fin: "(table_fill N)\<lparr>totalweight := totalweight (table_fill N) + 1,
            slots := slots_fill (Suc N),
            elements := elements (table_fill N) + 1,
            maxprobe := max (probepos (ent_n (Suc N))) (maxprobe (table_fill N))\<rparr>
      = table_fill (Suc N)"
    by (simp add: table_fill_def ent_n_def)
  show ?thesis
    using table_insert_unfold [OF full pre r loop] fin by simp
qed

lemma new_fill_0: "table_new True (\<lambda>_. True) (Some hash_len) None = Some (table_fill 0)"
  by (simp add: table_new_def TABLE_SIZE_DEFAULT_def nps table_fill_def)

lemma reach_fill: "N \<le> 521 \<Longrightarrow> reachable (table_fill N)"
proof (induction N)
  case 0
  show ?case by (rule reachable.new [OF new_fill_0])
next
  case (Suc N)
  then have "reachable (table_fill N)" by simp
  moreover have "table_insert (\<lambda>_. False) (table_fill N) (key_n (Suc N)) (Suc N) (Suc N)
     = Some (0, table_fill (Suc N))"
    using Suc.prems by (intro insert_fill_step) simp_all
  ultimately show ?case by (rule reachable.insert)
qed

section \<open>Search soundness\<close>

lemma slot_index_less: "0 < sz \<Longrightarrow> slot_index h p step sz < sz"
  by (simp add: slot_index_def)

lemma search_loop_sound:
  assumes "search_loop ta k klen h step start walk topdone botdone = Some pos"
  shows "pos = - 1 \<or> hit ta k klen pos"
proof (rule search_loop.raw_induct
    [where P = "\<lambda>ta k klen h step start walk topdone botdone pos. pos = - 1 \<or> hit ta k klen pos",
     OF _ assms], goal_cases)
  case (1 search_loop ta k klen h step start walk topdone botdone pos)
  define pu where "pu = slot_index h (of_int (start + walk)) step (size_tbl ta)"
  define pd where "pd = slot_index h (of_int (start - walk)) step (size_tbl ta)"
  have hu: "hit ta k klen (int pu)"
    if "alive (slots ta ! pu)" "cmp_fn ta k (key (slots ta ! pu)) klen = 0"
    using that by (simp add: hit_def pu_def slot_index_less)
  have hd: "hit ta k klen (int pd)"
    if "alive (slots ta ! pd)" "cmp_fn ta k (key (slots ta ! pd)) klen = 0"
    using that by (simp add: hit_def pd_def slot_index_less)
  from 1(2) show ?case
    unfolding Let_def pu_def [symmetric] pd_def [symmetric]
    by (auto split: if_splits dest: 1(1) hu hd)
qed

lemma internal_search_sound:
  assumes "internal_search ta k klen = Some pos"
  shows "pos = - 1 \<or> hit ta k klen pos"
  using assms
  by (auto simp: internal_search_def Let_def split: if_splits dest: search_loop_sound)

text \<open>
  C9. A non-negative result of \<open>internal_search\<close> names a slot that is alive and whose
  key the table's comparison function reports equal to the searched key over \<open>keylen\<close>
  bytes. So \<open>table_get\<close> either fails with \<open>NULL\<close>, or returns the data of a live slot
  whose key compares equal.
\<close>

theorem search_soundness:
  "(\<forall>pos. internal_search ta k klen = Some pos \<and> 0 \<le> pos \<longrightarrow>
       alive (slots ta ! nat pos) \<and> cmp_fn ta k (key (slots ta ! nat pos)) klen = 0)
   \<and> (\<forall>rv d. table_get ta k klen = Some (rv, d) \<longrightarrow>
         (rv = - 1 \<and> d = NULL)
         \<or> (rv = 0 \<and> (\<exists>i. alive (slots ta ! i) \<and> cmp_fn ta k (key (slots ta ! i)) klen = 0
                 \<and> d = data (slots ta ! i))))"
proof -
  have a: "alive (slots ta ! nat pos) \<and> cmp_fn ta k (key (slots ta ! nat pos)) klen = 0"
    if "internal_search ta k klen = Some pos" "0 \<le> pos" for pos
    using internal_search_sound [OF that(1)] that(2) by (auto simp: hit_def)
  have b: "(rv = - 1 \<and> d = NULL)
         \<or> (rv = 0 \<and> (\<exists>i. alive (slots ta ! i) \<and> cmp_fn ta k (key (slots ta ! i)) klen = 0
                 \<and> d = data (slots ta ! i)))"
    if "table_get ta k klen = Some (rv, d)" for rv d
    using that a by (auto simp: table_get_def split: option.splits if_splits)
  from a b show ?thesis by blast
qed

theorem search_soundness_witness:
  "internal_search T1 k_aa 2 = Some 65
   \<and> alive (slots T1 ! 65) \<and> cmp_fn T1 k_aa (key (slots T1 ! 65)) 2 = 0
   \<and> table_get T1 k_aa 2 = Some (0, 1)"
proof -
  have g: "table_get T1 k_aa 2 = Some (0, 1)"
    by (simp add: table_get_def search_aa) (simp add: T1_def T0_def e_aa_def)
  from search_soundness [of T1 k_aa 2] search_aa g show ?thesis
    by simp
qed

section \<open>Weight accounting\<close>

lemma live_weight_alt: "live_weight xs = sum_list (map weight xs)"
  by (induction xs) (simp_all add: live_weight_def weight_def)

lemma sum_list_weight_update:
  "i < length xs \<Longrightarrow>
     sum_list (map weight (xs[i := e])) = sum_list (map weight xs) - weight (xs ! i) + weight e"
proof (induction xs arbitrary: i)
  case Nil
  then show ?case by simp
next
  case (Cons x xs)
  then show ?case by (cases i) simp_all
qed

lemma live_weight_update:
  "i < length xs \<Longrightarrow> live_weight (xs[i := e]) = live_weight xs - weight (xs ! i) + weight e"
  by (simp add: live_weight_alt sum_list_weight_update)

lemma live_weight_replicate: "live_weight (replicate n zero_entry) = 0"
  by (simp add: live_weight_def zero_entry_def)

lemma next_prime_up_is_prime:
  assumes "next_prime_up n = Some m"
  shows "is_prime m"
proof (rule next_prime_up.raw_induct [where P = "\<lambda>n m. is_prime m", OF _ assms], goal_cases)
  case (1 next_prime_up n m)
  then show ?case by (auto split: if_splits)
qed

lemma is_prime_pos: "is_prime n \<Longrightarrow> 0 < n"
  by (auto simp: is_prime_def split: if_splits)

lemma next_prime_size_pos: "next_prime_size n = Some m \<Longrightarrow> 0 < m"
  by (auto simp: next_prime_size_def dest!: next_prime_up_is_prime is_prime_pos)

lemma probe_walk_inv:
  assumes "probe_walk ta r step = Some (ta', r', i)" and "walk_inv ta r"
  shows "walk_inv ta' r' \<and> i < size_tbl ta'"
proof -
  have "walk_inv ta r \<longrightarrow> walk_inv (fst res) (fst (snd res)) \<and> snd (snd res) < size_tbl (fst res)"
    if "probe_walk ta r step = Some res" for res
  proof (rule probe_walk.raw_induct
      [where P = "\<lambda>ta r step res. walk_inv ta r \<longrightarrow>
          walk_inv (fst res) (fst (snd res)) \<and> snd (snd res) < size_tbl (fst res)",
        OF _ that], goal_cases)
    case (1 probe_walk ta r step res)
    define r1 where "r1 = r\<lparr>probepos := probepos r + 1\<rparr>"
    define t1 where "t1 = ta\<lparr>totalweight := totalweight ta + 1\<rparr>"
    define i where "i = slot_index (hash r1) (ucast (probepos r1)) step (size_tbl t1)"
    define e where "e = slots t1 ! i"
    note defs = r1_def [symmetric] t1_def [symmetric] i_def [symmetric] e_def [symmetric]
    show ?case
    proof
      assume inv: "walk_inv ta r"
      then have inv1: "walk_inv t1 r1"
        by (simp add: walk_inv_def shape_ok_def r1_def t1_def)
      then have il: "i < size_tbl t1" and il': "i < length (slots t1)"
        by (simp_all add: i_def walk_inv_def shape_ok_def slot_index_less)
      from 1(2) have body:
        "(if \<not> alive e then Some (t1, r1, i)
          else if probepos e < probepos r1 \<or> (probepos e = probepos r1 \<and> hash r1 < hash e) then
            probe_walk (t1\<lparr>maxprobe := max (probepos r1) (maxprobe t1), slots := (slots t1)[i := r1]\<rparr>)
              e (step_of t1 (hash e))
          else if probepos e = probepos r1 \<and> hash r1 = hash e
                  \<and> strncmp (bytes_of (key r1)) (bytes_of (key e)) (keylen r1) = 0 then
            Some (t1, r1, i)
          else probe_walk t1 r1 step) = Some res"
        by (simp only: Let_def defs)
      show "walk_inv (fst res) (fst (snd res)) \<and> snd (snd res) < size_tbl (fst res)"
      proof (cases "alive e")
        case False
        with body inv1 il show ?thesis by auto
      next
        case True
        have swapped: "walk_inv (t1\<lparr>maxprobe := max (probepos r1) (maxprobe t1),
              slots := (slots t1)[i := r1]\<rparr>) e"
          using inv1 il' True
          by (simp add: walk_inv_def shape_ok_def live_weight_update weight_def e_def)
        from body True inv1 il swapped show ?thesis
          by (auto split: if_splits dest: 1(1))
      qed
    qed
  qed
  from this [OF assms(1)] assms(2) show ?thesis by simp
qed
lemma insert_exit_inv:
  assumes "insert_exit ta r i = Some (ex, ta', r')" and "walk_inv ta r" and "i < size_tbl ta"
  shows "table_inv ta'"
proof -
  define e where "e = slots ta ! i"
  from assms(2,3) have len: "i < length (slots ta)" and sz: "0 < size_tbl ta"
    and lsz: "length (slots ta) = size_tbl ta"
    and tw: "totalweight ta = live_weight (slots ta) + probepos r" and ar: "alive r"
    by (simp_all add: walk_inv_def shape_ok_def)
  have placed: "table_inv (ta\<lparr>slots := (slots ta)[i := r]\<rparr>)" if "\<not> alive e"
    using that len sz lsz tw ar
    by (simp add: table_inv_def shape_ok_def weight_ok_def live_weight_update weight_def e_def)
  show ?thesis
  proof (cases "alive e")
    case True
    with assms(1) have "ta' = ta\<lparr>slots := (slots ta)[i := e\<lparr>data := data r\<rparr>],
                totalweight := totalweight ta - probepos r\<rparr>"
      by (auto simp: insert_exit_def Let_def e_def)
    then show ?thesis
      using len sz lsz tw True
      by (simp add: table_inv_def shape_ok_def weight_ok_def live_weight_update weight_def e_def)
  next
    case False
    show ?thesis
    proof (cases "key e = None")
      case True
      with False assms(1) have "ta' = ta\<lparr>slots := (slots ta)[i := r]\<rparr>"
        by (auto simp: insert_exit_def Let_def e_def)
      with placed False show ?thesis by simp
    next
      case kn: False
      from False kn assms(1) obtain pos where
        s: "internal_search ta (key r) (keylen r) = Some pos"
        by (auto simp: insert_exit_def Let_def e_def split: option.splits)
      show ?thesis
      proof (cases "pos = - 1")
        case True
        with False kn s assms(1) have "ta' = ta\<lparr>slots := (slots ta)[i := r]\<rparr>"
          by (auto simp: insert_exit_def Let_def e_def)
        with placed False show ?thesis by simp
      next
        case found: False
        with internal_search_sound [OF s] have h: "hit ta (key r) (keylen r) pos"
          by simp
        define j where "j = nat pos"
        from h sz lsz have jl: "j < length (slots ta)" and aj: "alive (slots ta ! j)"
          by (simp_all add: hit_def j_def)
        from aj False have ji: "j \<noteq> i" by (auto simp: e_def)
        define tb where "tb = (slots ta)[i := r, j := ((slots ta)[i := r] ! j)\<lparr>alive := False\<rparr>]"
        from False kn s found assms(1) have ta': "ta' = ta\<lparr>slots := tb,
            totalweight := totalweight ta - probepos (tb ! j)\<rparr>"
          by (auto simp: insert_exit_def Let_def e_def tb_def j_def)
        have tbj: "tb ! j = (slots ta ! j)\<lparr>alive := False\<rparr>"
          using jl ji by (simp add: tb_def)
        have "live_weight tb = live_weight (slots ta) + probepos r - probepos (slots ta ! j)"
          using len jl ji False ar aj
          by (simp add: tb_def live_weight_update weight_def e_def)
        with ta' tbj tw lsz sz show ?thesis
          by (simp add: table_inv_def shape_ok_def weight_ok_def tb_def)
      qed
    qed
  qed
qed

lemma insert_loop_inv:
  assumes "insert_loop ta r step = Some (ex, ta', r')" and "walk_inv ta r"
  shows "table_inv ta'"
proof -
  from assms(1) obtain tw rw i where w: "probe_walk ta r step = Some (tw, rw, i)"
    and x: "insert_exit tw rw i = Some (ex, ta', r')"
    by (auto simp: insert_loop_def split: option.splits)
  from probe_walk_inv [OF w assms(2)] x show ?thesis
    by (auto intro: insert_exit_inv)
qed

lemma table_inv_bump:
  "table_inv ta \<Longrightarrow> table_inv (ta\<lparr>elements := n, maxprobe := m\<rparr>)"
  by (simp add: table_inv_def shape_ok_def weight_ok_def)

lemma replay_inv:
  assumes ins: "\<And>ta k n d rv ta'. ins ta k n d = Some (rv, ta') \<Longrightarrow> table_inv ta \<Longrightarrow> table_inv ta'"
    and "replay ins es ta = Some ta'" and "table_inv ta"
  shows "table_inv ta'"
  using assms(2,3)
proof (induction es arbitrary: ta)
  case Nil
  then show ?case by simp
next
  case (Cons e es)
  show ?case
  proof (cases "alive e")
    case True
    with Cons.prems(1) obtain rv t1 where
      "ins ta (key e) (keylen e) (data e) = Some (rv, t1)" "replay ins es t1 = Some ta'"
      by (auto split: option.splits)
    with Cons.IH [of t1] ins [of ta "key e" "keylen e" "data e" rv t1] Cons.prems(2)
    show ?thesis by blast
  next
    case False
    with Cons show ?thesis by simp
  qed
qed

lemma grow_table_with_inv:
  assumes ins: "\<And>ta k n d rv ta'. ins ta k n d = Some (rv, ta') \<Longrightarrow> table_inv ta \<Longrightarrow> table_inv ta'"
    and g: "grow_table_with ins calloc ta = Some (rv, ta')" and inv: "table_inv ta"
  shows "table_inv ta'"
proof -
  from g obtain new_size where n: "next_prime_size (size_tbl ta) = Some new_size"
    by (auto simp: grow_table_with_def split: option.splits)
  show ?thesis
  proof (cases "calloc new_size")
    case False
    with g n inv show ?thesis by (simp add: grow_table_with_def)
  next
    case True
    define t1 where "t1 = ta\<lparr>slots := replicate new_size zero_entry,
                       size_tbl := new_size,
                       step_prime := next_prime_step new_size,
                       elements := 0, maxprobe := 0, totalweight := 0\<rparr>"
    from g n True have r: "replay ins (take (size_tbl ta) (slots ta)) t1 = Some ta'"
      by (auto simp: grow_table_with_def t1_def split: option.splits)
    show ?thesis
    proof (rule replay_inv [OF _ r])
      show "table_inv tb'" if "ins tb k n d = Some (rv, tb')" "table_inv tb" for tb k n d rv tb'
        using that by (rule ins)
      show "table_inv t1"
        using next_prime_size_pos [OF n]
        by (simp add: t1_def table_inv_def shape_ok_def weight_ok_def live_weight_replicate)
    qed
  qed
qed

lemma table_insert_inv:
  assumes "table_insert calloc ta k klen d = Some (rv, ta')" and "table_inv ta"
  shows "table_inv ta'"
proof -
  have "table_inv ta \<longrightarrow> table_inv (snd res)"
    if "table_insert calloc ta k klen d = Some res" for res
  proof (rule table_insert.raw_induct
      [where P = "\<lambda>calloc ta k klen d res. table_inv ta \<longrightarrow> table_inv (snd res)", OF _ that],
      goal_cases)
    case (1 table_insert calloc ta k klen d res)
    define r where "r = \<lparr>hash = hash_fn ta k klen, key = k, data = d, keylen = klen,
                probepos = 0, alive = True\<rparr>"
    have ins: "table_inv tb'" if "table_insert calloc tb k n d = Some (rv, tb')" "table_inv tb"
      for tb k n d rv tb'
      using 1(1) [OF that(1)] that(2) by simp
    show ?case
    proof
      assume inv: "table_inv ta"
      show "table_inv (snd res)"
      proof (cases "unat (elements ta) = size_tbl ta")
        case True
        with 1(2) inv show ?thesis by (auto simp: Let_def)
      next
        case False
        with 1(2) have b: "Option.bind
             (if load_factor_exceeded (elements ta) (size_tbl ta)
              then Option.bind (grow_table_with (table_insert calloc) calloc ta)
                     (\<lambda>(_, ta'). Some ta')
              else Some ta)
             (\<lambda>tb. Option.bind (insert_loop tb r (step_of ta (hash r)))
                (\<lambda>(ex, tb, r).
                   case ex of
                     Return v \<Rightarrow> Some (v, tb)
                   | Break \<Rightarrow>
                       Some (0, tb\<lparr>elements := elements tb + 1,
                                   maxprobe := max (probepos r) (maxprobe tb)\<rparr>))) = Some res"
          by (simp add: Let_def r_def)
        then obtain t1 where
          t1: "(if load_factor_exceeded (elements ta) (size_tbl ta)
                then Option.bind (grow_table_with (table_insert calloc) calloc ta)
                       (\<lambda>(_, ta'). Some ta')
                else Some ta) = Some t1"
          and b2: "Option.bind (insert_loop t1 r (step_of ta (hash r)))
                (\<lambda>(ex, tb, r).
                   case ex of
                     Return v \<Rightarrow> Some (v, tb)
                   | Break \<Rightarrow>
                       Some (0, tb\<lparr>elements := elements tb + 1,
                                   maxprobe := max (probepos r) (maxprobe tb)\<rparr>)) = Some res"
          unfolding bind_eq_Some_conv by blast
        from b2 obtain ex t2 r2 where
          l: "insert_loop t1 r (step_of ta (hash r)) = Some (ex, t2, r2)"
          and res: "(case ex of
                     Return v \<Rightarrow> Some (v, t2)
                   | Break \<Rightarrow> Some (0, t2\<lparr>elements := elements t2 + 1,
                                   maxprobe := max (probepos r2) (maxprobe t2)\<rparr>)) = Some res"
          unfolding bind_eq_Some_conv by auto
        have "table_inv t1"
        proof (cases "load_factor_exceeded (elements ta) (size_tbl ta)")
          case False
          with t1 inv show ?thesis by simp
        next
          case True
          with t1 obtain gv where g: "grow_table_with (table_insert calloc) calloc ta = Some (gv, t1)"
            by (auto simp: bind_eq_Some_conv)
          show ?thesis
          proof (rule grow_table_with_inv [OF _ g inv])
            show "table_inv tb'" if "table_insert calloc tb k n d = Some (rv, tb')" "table_inv tb"
              for tb k n d rv tb'
              using that by (rule ins)
          qed
        qed
        then have "walk_inv t1 r"
          by (simp add: walk_inv_def table_inv_def weight_ok_def r_def)
        from insert_loop_inv [OF l this] res show ?thesis
          by (auto split: loop_exit.splits intro: table_inv_bump)
      qed
    qed
  qed
  from this [OF assms(1)] assms(2) show ?thesis by simp
qed

lemma grow_table_inv:
  "grow_table calloc ta = Some (rv, ta') \<Longrightarrow> table_inv ta \<Longrightarrow> table_inv ta'"
  unfolding grow_table_def
  by (erule grow_table_with_inv [rotated]) (auto intro: table_insert_inv)

lemma table_remove_inv:
  assumes "table_remove ta k klen = Some (rv, ta')" and "table_inv ta"
  shows "table_inv ta'"
proof -
  from assms(1) obtain pos where s: "internal_search ta k klen = Some pos"
    by (auto simp: table_remove_def split: option.splits)
  show ?thesis
  proof (cases "0 < pos")
    case False
    with s assms show ?thesis by (simp add: table_remove_def)
  next
    case True
    with internal_search_sound [OF s] have h: "hit ta k klen pos" by auto
    define j where "j = nat pos"
    from assms(2) have lsz: "length (slots ta) = size_tbl ta" and sz: "0 < size_tbl ta"
      and tw: "totalweight ta = live_weight (slots ta)"
      by (simp_all add: table_inv_def shape_ok_def weight_ok_def)
    from h sz lsz have jl: "j < length (slots ta)" and aj: "alive (slots ta ! j)"
      by (simp_all add: hit_def j_def)
    from s True assms(1) have "ta' = ta\<lparr>slots := (slots ta)[j := (slots ta ! j)\<lparr>alive := False\<rparr>],
        elements := elements ta - 1,
        totalweight := totalweight ta - probepos (((slots ta)[j := (slots ta ! j)\<lparr>alive := False\<rparr>]) ! j)\<rparr>"
      by (simp add: table_remove_def Let_def j_def)
    with jl aj lsz sz tw show ?thesis
      by (simp add: table_inv_def shape_ok_def weight_ok_def live_weight_update weight_def)
  qed
qed

lemma table_new_inv: "table_new m calloc h c = Some ta \<Longrightarrow> table_inv ta"
  by (auto simp: table_new_def table_inv_def shape_ok_def weight_ok_def live_weight_replicate
      TABLE_SIZE_DEFAULT_def split: if_splits)

lemma reachable_inv: "reachable ta \<Longrightarrow> table_inv ta"
  by (induction rule: reachable.induct)
    (auto intro: table_new_inv table_insert_inv table_remove_inv grow_table_inv)

text \<open>
  C2. In every table state that \<open>table_new\<close>, \<open>table_insert\<close>, \<open>table_remove\<close> and
  growth reach, \<open>totalweight\<close> is the sum of \<open>probepos\<close> over the entries that are alive
  (both in the arithmetic of \<open>unsigned int\<close>).
\<close>

theorem weight_accounting:
  "reachable ta \<Longrightarrow> totalweight ta = sum_list (map probepos (filter alive (slots ta)))"
  using reachable_inv [of ta] by (simp add: table_inv_def weight_ok_def live_weight_def)

theorem weight_accounting_witness:
  "reachable T5 \<and> totalweight T5 = sum_list (map probepos (filter alive (slots T5)))"
  using weight_accounting [OF reach_T5] reach_T5 by simp


section \<open>Placement after growth\<close>

lemma slot_b_inj: "slot_b n = slot_b m \<Longrightarrow> n < 1367 \<Longrightarrow> m < 1367 \<Longrightarrow> n = m"
  using lin_inv_mod [of 275 736301 1367 1361 6 n] lin_inv_mod [of 275 736301 1367 1361 6 m]
  by (simp add: slot_b_def)

lemma slot_b_354: "n < 1367 \<Longrightarrow> slot_b n = 354 \<Longrightarrow> n = 576"
  using lin_inv_mod [of 275 736301 1367 1361 6 n] by (simp add: slot_b_def)

lemma length_slots_grow [simp]: "length (slots_grow N) = 1367"
  by (induction N) simp_all

lemma slots_grow_free:
  "j < 1367 \<Longrightarrow> (\<And>n. 1 \<le> n \<Longrightarrow> n \<le> N \<Longrightarrow> slot_b n \<noteq> j) \<Longrightarrow> slots_grow N ! j = zero_entry"
proof (induction N)
  case 0
  then show ?case by simp
next
  case (Suc N)
  from Suc.prems(2) [of "Suc N"] have "slot_b (Suc N) \<noteq> j" by simp
  moreover have "slots_grow N ! j = zero_entry"
    by (rule Suc.IH [OF Suc.prems(1)]) (simp add: Suc.prems(2))
  ultimately show ?case by simp
qed

lemma slots_grow_at:
  "1 \<le> n \<Longrightarrow> n \<le> N \<Longrightarrow> N < 1367 \<Longrightarrow> slots_grow N ! slot_b n = ent_n n"
proof (induction N)
  case 0
  then show ?case by simp
next
  case (Suc N)
  have sl: "slot_b (Suc N) < 1367" by (simp add: slot_b_def)
  show ?case
  proof (cases "n = Suc N")
    case True
    with sl show ?thesis by simp
  next
    case False
    with Suc.prems have "n \<le> N" "n < 1367" "Suc N < 1367" by simp_all
    with slot_b_inj [of "Suc N" n] False have "slot_b (Suc N) \<noteq> slot_b n" by auto
    with Suc.IH \<open>n \<le> N\<close> Suc.prems show ?thesis by simp
  qed
qed

lemma step_of_hash_len_grown:
  "step_prime ta = 1361 \<Longrightarrow> n < 4294967296 \<Longrightarrow> step_of ta (hash_len k n) = 1361"
  by (simp add: step_of_def unat_hash_len)

lemma slot_index_hash_len_grown:
  assumes "n < 4294967296"
  shows "slot_index (hash_len k n) 1 1361 1367 = slot_b n"
proof -
  have "hash_len k n + 1 * 1361 = (of_nat (736301 * n + 1361) :: u64)"
    by (simp add: hash_len_def)
  then have "unat (hash_len k n + 1 * 1361) = 736301 * n + 1361"
    using assms by (simp add: unat_of_nat_u64 del: of_nat_mult of_nat_add)
  then show ?thesis by (simp add: slot_index_def slot_b_def)
qed

lemma load_1367: "N < 1299 \<Longrightarrow> \<not> load_factor_exceeded (of_nat N) 1367"
  by (auto simp: load_factor_exceeded_def float_of_nat_def unat_of_nat_u32)

lemma grown_part_step:
  assumes g: "grown_part S tb" and fin: "finite S" and sub: "S \<subseteq> {1..546}"
    and n: "1 \<le> n" "n \<le> 546" "n \<notin> S"
  shows "\<exists>tb'. table_insert calloc tb (key_n n) n n = Some (0, tb') \<and> grown_part (insert n S) tb'"
proof -
  define r where "r = (ent_n n)\<lparr>probepos := 0\<rparr>"
  from fin sub have "card S \<le> card {1..546::nat}" by (intro card_mono) simp_all
  then have cs: "card S \<le> 546" by simp
  have sl: "slot_b n < 1367" by (simp add: slot_b_def)
  have ne: "slot_b m \<noteq> slot_b n" if "m \<in> S" for m
    using slot_b_inj [of m n] that sub n by auto
  with g sl have free: "slots tb ! slot_b n = zero_entry"
    by (simp add: grown_part_def)
  have full: "unat (elements tb) \<noteq> size_tbl tb"
    using g cs by (simp add: grown_part_def unat_of_nat_u32)
  have pre: "(if load_factor_exceeded (elements tb) (size_tbl tb)
        then Option.bind (grow_table_with (table_insert calloc) calloc tb) (\<lambda>(_, ta'). Some ta')
        else Some tb) = Some tb"
    using g cs load_1367 [of "card S"] by (simp add: grown_part_def)
  have r: "r = \<lparr>hash = hash_fn tb (key_n n) n, key = key_n n,
            data = n, keylen = n, probepos = 0, alive = True\<rparr>"
    using g by (simp add: r_def ent_n_def grown_part_def)
  have hr: "hash r = hash_len (key_n n) n"
    by (simp add: r_def ent_n_def)
  have st: "step_of tb (hash r) = 1361"
    unfolding hr using n g by (intro step_of_hash_len_grown) (simp_all add: grown_part_def)
  have i: "slot_b n = slot_index (hash r) (ucast (probepos r + 1)) 1361 (size_tbl tb)"
    unfolding hr using n g slot_index_hash_len_grown [of n "key_n n"]
    by (simp add: r_def grown_part_def)
  have dead: "\<not> alive (slots tb ! slot_b n)" "key (slots tb ! slot_b n) = None"
    by (simp_all add: free zero_entry_def)
  have r1: "r\<lparr>probepos := probepos r + 1\<rparr> = ent_n n"
    by (simp add: r_def ent_n_def)
  have walk: "probe_walk tb r 1361
      = Some (tb\<lparr>totalweight := totalweight tb + 1\<rparr>, ent_n n, slot_b n)"
    using probe_walk_dead [OF i dead(1)] by (simp only: r1)
  have exit: "insert_exit (tb\<lparr>totalweight := totalweight tb + 1\<rparr>) (ent_n n) (slot_b n)
      = Some (Break, tb\<lparr>totalweight := totalweight tb + 1,
            slots := (slots tb)[slot_b n := ent_n n]\<rparr>, ent_n n)"
    using dead by (subst insert_exit_pristine) simp_all
  have loop: "insert_loop tb r (step_of tb (hash r))
      = Some (Break, tb\<lparr>totalweight := totalweight tb + 1,
            slots := (slots tb)[slot_b n := ent_n n]\<rparr>, ent_n n)"
    by (simp add: insert_loop_def st walk exit)
  define tb' where "tb' = tb\<lparr>totalweight := totalweight tb + 1,
            slots := (slots tb)[slot_b n := ent_n n],
            elements := elements tb + 1,
            maxprobe := max (probepos (ent_n n)) (maxprobe tb)\<rparr>"
  have ins: "table_insert calloc tb (key_n n) n n = Some (0, tb')"
    using table_insert_unfold [OF full pre r loop] by (simp add: tb'_def)
  have card: "card (insert n S) = Suc (card S)"
    using fin n(3) by simp
  have at: "slots tb' ! slot_b m = ent_n m" if "m \<in> insert n S" for m
  proof (cases "m = n")
    case True
    with g sl show ?thesis by (simp add: tb'_def grown_part_def)
  next
    case False
    with that have m: "m \<in> S" by simp
    from ne [OF m] have "slot_b n \<noteq> slot_b m" by simp
    with m g show ?thesis by (simp add: tb'_def grown_part_def)
  qed
  have fr: "slots tb' ! j = zero_entry" if "j < 1367" "\<forall>m\<in>insert n S. slot_b m \<noteq> j" for j
    using that g by (simp add: tb'_def grown_part_def)
  have "grown_part (insert n S) tb'"
    unfolding grown_part_def
    using g at fr card by (simp add: tb'_def grown_part_def ent_n_def)
  with ins show ?thesis by blast
qed

lemma slots_fill_cases:
  assumes "j < 547" and "N < 547"
  shows "slots_fill N ! j = zero_entry \<and> (\<forall>n. 1 \<le> n \<and> n \<le> N \<longrightarrow> slot_a n \<noteq> j)
     \<or> (\<exists>n. 1 \<le> n \<and> n \<le> N \<and> slot_a n = j \<and> slots_fill N ! j = ent_n n)"
proof (cases "\<exists>n. 1 \<le> n \<and> n \<le> N \<and> slot_a n = j")
  case True
  then obtain n where "1 \<le> n" "n \<le> N" "slot_a n = j" by blast
  with slots_fill_at [of n N] assms(2) show ?thesis by auto
next
  case False
  with slots_fill_free [OF assms(1), of N] show ?thesis by auto
qed

text \<open>The replay of \<open>grow_table\<close> over the slots of \<open>table_fill 520\<close> from index \<open>j\<close> on.\<close>

lemma replay_fill:
  assumes "j \<le> 547"
    and "grown_part {n. 1 \<le> n \<and> n \<le> 520 \<and> slot_a n < j} tb"
  shows "\<exists>tg. replay (table_insert calloc) (drop j (slots_fill 520)) tb = Some tg
     \<and> grown_part {n. 1 \<le> n \<and> n \<le> 520} tg"
  using assms
proof (induction "547 - j" arbitrary: j tb)
  case 0
  then have "j = 547" by simp
  moreover have "{n. 1 \<le> n \<and> n \<le> 520 \<and> slot_a n < 547} = {n. 1 \<le> n \<and> n \<le> 520}"
    by (auto simp: slot_a_def)
  ultimately show ?case using "0.prems"(2) by simp
next
  case (Suc k)
  then have j: "j < 547" by simp
  define S where "S = {n. 1 \<le> n \<and> n \<le> 520 \<and> slot_a n < j}"
  have fin: "finite S" and sub: "S \<subseteq> {1..546}" by (auto simp: S_def)
  have dr: "drop j (slots_fill 520) = slots_fill 520 ! j # drop (Suc j) (slots_fill 520)"
    using j by (simp add: Cons_nth_drop_Suc)
  from Suc.hyps(2) have k: "k = 547 - Suc j" and j': "Suc j \<le> 547" by simp_all
  have "(520::nat) < 547" by simp
  from slots_fill_cases [OF j this] show ?case
  proof (elim disjE conjE exE)
    assume z: "slots_fill 520 ! j = zero_entry"
      and no: "\<forall>n. 1 \<le> n \<and> n \<le> 520 \<longrightarrow> slot_a n \<noteq> j"
    then have "{n. 1 \<le> n \<and> n \<le> 520 \<and> slot_a n < Suc j} = S"
      by (auto simp: S_def less_Suc_eq)
    with Suc.prems(2) have "grown_part {n. 1 \<le> n \<and> n \<le> 520 \<and> slot_a n < Suc j} tb"
      by (simp add: S_def)
    from Suc.hyps(1) [OF k j' this] z show ?thesis
      by (simp add: dr zero_entry_def)
  next
    fix n
    assume n: "1 \<le> n" "n \<le> 520" "slot_a n = j" and e: "slots_fill 520 ! j = ent_n n"
    then have nS: "n \<notin> S" by (simp add: S_def)
    from n have n546: "n \<le> 546" by simp
    from Suc.prems(2) have "grown_part S tb" by (simp add: S_def)
    from grown_part_step [OF this fin sub n(1) n546 nS, of calloc] obtain tb'
      where ins: "table_insert calloc tb (key_n n) n n = Some (0, tb')"
        and g': "grown_part (insert n S) tb'"
      by blast
    have "{m. 1 \<le> m \<and> m \<le> 520 \<and> slot_a m < Suc j} = insert n S"
    proof (intro set_eqI iffI)
      fix m assume "m \<in> {m. 1 \<le> m \<and> m \<le> 520 \<and> slot_a m < Suc j}"
      then have m: "1 \<le> m" "m \<le> 520" "slot_a m < j \<or> slot_a m = j" by auto
      with slot_a_inj [of m n] n show "m \<in> insert n S" by (auto simp: S_def)
    next
      fix m assume "m \<in> insert n S"
      with n show "m \<in> {m. 1 \<le> m \<and> m \<le> 520 \<and> slot_a m < Suc j}" by (auto simp: S_def)
    qed
    with g' have "grown_part {m. 1 \<le> m \<and> m \<le> 520 \<and> slot_a m < Suc j} tb'" by simp
    from Suc.hyps(1) [OF k j' this] ins e show ?thesis
      by (simp add: dr ent_n_def)
  qed
qed

lemma grown_part_closed:
  assumes "grown_part {n. 1 \<le> n \<and> n \<le> 520} tg"
  shows "tg = table_grow 520"
proof -
  have c: "card {n::nat. 1 \<le> n \<and> n \<le> 520} = 520"
  proof -
    have "{n::nat. 1 \<le> n \<and> n \<le> 520} = {1..520}" by auto
    then show ?thesis by simp
  qed
  have ne: "{n::nat. 1 \<le> n \<and> n \<le> 520} \<noteq> {}" by auto
  have "slots tg = slots_grow 520"
  proof (rule nth_equalityI)
    show "length (slots tg) = length (slots_grow 520)"
      using assms by (simp add: grown_part_def)
    fix j assume "j < length (slots tg)"
    with assms have j: "j < 1367" by (simp add: grown_part_def)
    show "slots tg ! j = slots_grow 520 ! j"
    proof (cases "\<exists>n. 1 \<le> n \<and> n \<le> 520 \<and> slot_b n = j")
      case True
      then obtain n where n: "1 \<le> n" "n \<le> 520" "slot_b n = j" by blast
      with assms have "slots tg ! j = ent_n n" by (auto simp: grown_part_def)
      with slots_grow_at [of n 520] n show ?thesis by simp
    next
      case False
      with assms j have "slots tg ! j = zero_entry" by (auto simp: grown_part_def)
      moreover from False have "slots_grow 520 ! j = zero_entry"
        by (intro slots_grow_free [OF j]) auto
      ultimately show ?thesis by simp
    qed
  qed
  with assms c ne show ?thesis
    by (intro table.equality) (simp_all add: grown_part_def table_grow_def)
qed

lemma nps_1367: "next_prime_step 1367 = 1361"
  by (simp add: next_prime_step_def dec64_def next_prime_down.simps is_prime_def is_prime_loop.simps int_square_def)

lemma grow_fill: "grow_table (\<lambda>_. True) (table_fill 520) = Some (0, table_grow 520)"
proof -
  define t1 where "t1 = (table_fill 520)\<lparr>slots := replicate 1367 zero_entry,
                       size_tbl := 1367,
                       step_prime := next_prime_step 1367,
                       elements := 0, maxprobe := 0, totalweight := 0\<rparr>"
  have "grown_part {} t1"
    by (simp add: grown_part_def t1_def table_fill_def nps_1367)
  then have "grown_part {n. 1 \<le> n \<and> n \<le> 520 \<and> slot_a n < 0} t1" by simp
  from replay_fill [OF _ this, of "\<lambda>_. True"] obtain tg
    where r: "replay (table_insert (\<lambda>_. True)) (slots_fill 520) t1 = Some tg"
      and g: "grown_part {n. 1 \<le> n \<and> n \<le> 520} tg"
    by auto
  from grown_part_closed [OF g] r show ?thesis
    by (simp add: grow_table_def grow_table_with_def table_fill_def next_prime_size_547 t1_def)
qed

lemma slot_stale: "slot_index (hash_len k 521) 1 541 1367 = 354"
  by (simp add: slot_index_def hash_len_def)

lemma slots_grow_354: "slots_grow 520 ! 354 = zero_entry"
proof (rule slots_grow_free)
  show "slot_b n \<noteq> 354" if "1 \<le> n" "n \<le> 520" for n
    using slot_b_354 [of n] that by auto
qed simp

lemma slots_grow_1174: "slots_grow 520 ! 1174 = zero_entry"
proof (rule slots_grow_free)
  have "slot_b 521 = 1174" by (simp add: slot_b_def)
  then show "slot_b n \<noteq> 1174" if "1 \<le> n" "n \<le> 520" for n
    using slot_b_inj [of n 521] that by auto
qed simp

lemma insert_after_growth:
  "table_insert (\<lambda>_. True) (table_fill 520) (key_n 521) 521 521 = Some (0, table_stale)"
proof -
  define r where "r = (ent_n 521)\<lparr>probepos := 0\<rparr>"
  have full: "unat (elements (table_fill 520)) \<noteq> size_tbl (table_fill 520)"
    by (simp add: table_fill_def)
  have "load_factor_exceeded (elements (table_fill 520)) (size_tbl (table_fill 520))"
    using load_547 [of 520] by (simp add: table_fill_def)
  then have pre: "(if load_factor_exceeded (elements (table_fill 520)) (size_tbl (table_fill 520))
        then Option.bind (grow_table_with (table_insert (\<lambda>_. True)) (\<lambda>_. True) (table_fill 520))
               (\<lambda>(_, ta'). Some ta')
        else Some (table_fill 520)) = Some (table_grow 520)"
    using grow_fill by (simp add: grow_table_def)
  have r: "r = \<lparr>hash = hash_fn (table_fill 520) (key_n 521) 521, key = key_n 521,
            data = 521, keylen = 521, probepos = 0, alive = True\<rparr>"
    by (simp add: r_def ent_n_def table_fill_def)
  have hr: "hash r = hash_len (key_n 521) 521"
    by (simp add: r_def ent_n_def)
  have st: "step_of (table_fill 520) (hash r) = 541"
    unfolding hr by (intro step_of_hash_len) (simp_all add: table_fill_def)
  have i: "354 = slot_index (hash r) (ucast (probepos r + 1)) 541 (size_tbl (table_grow 520))"
    unfolding hr using slot_stale [of "key_n 521"] by (simp add: r_def table_grow_def)
  have dead: "\<not> alive (slots (table_grow 520) ! 354)" "key (slots (table_grow 520) ! 354) = None"
    by (simp_all add: table_grow_def slots_grow_354 zero_entry_def)
  have r1: "r\<lparr>probepos := probepos r + 1\<rparr> = ent_n 521"
    by (simp add: r_def ent_n_def)
  have walk: "probe_walk (table_grow 520) r 541
      = Some ((table_grow 520)\<lparr>totalweight := totalweight (table_grow 520) + 1\<rparr>, ent_n 521, 354)"
    using probe_walk_dead [OF i dead(1)] by (simp only: r1)
  have exit: "insert_exit ((table_grow 520)\<lparr>totalweight := totalweight (table_grow 520) + 1\<rparr>)
        (ent_n 521) 354
      = Some (Break, (table_grow 520)\<lparr>totalweight := totalweight (table_grow 520) + 1,
            slots := (slots_grow 520)[354 := ent_n 521]\<rparr>, ent_n 521)"
    using dead by (subst insert_exit_pristine) (simp_all add: table_grow_def)
  have loop: "insert_loop (table_grow 520) r (step_of (table_fill 520) (hash r))
      = Some (Break, (table_grow 520)\<lparr>totalweight := totalweight (table_grow 520) + 1,
            slots := (slots_grow 520)[354 := ent_n 521]\<rparr>, ent_n 521)"
    by (simp add: insert_loop_def st walk exit)
  have fin: "(table_grow 520)\<lparr>totalweight := totalweight (table_grow 520) + 1,
            slots := (slots_grow 520)[354 := ent_n 521],
            elements := elements (table_grow 520) + 1,
            maxprobe := max (probepos (ent_n 521)) (maxprobe (table_grow 520))\<rparr>
      = table_stale"
    by (simp add: table_stale_def table_grow_def ent_n_def)
  show ?thesis
    using table_insert_unfold [OF full pre r loop] fin by simp
qed

lemma search_stale: "internal_search table_stale (key_n 521) 521 = Some (- 1)"
proof -
  have st: "step_of table_stale (hash_len (key_n 521) 521) = 1361"
    by (intro step_of_hash_len_grown) (simp_all add: table_stale_def table_grow_def)
  have sl: "slot_index (hash_len (key_n 521) 521) 1 1361 1367 = 1174"
    using slot_index_hash_len_grown [of 521 "key_n 521"] by (simp add: slot_b_def)
  have z: "slots table_stale ! 1174 = zero_entry"
    by (simp add: table_stale_def table_grow_def slots_grow_1174)
  have f: "hash_fn table_stale = hash_len" "elements table_stale = 521"
    "totalweight table_stale = 521" "maxprobe table_stale = 1" "size_tbl table_stale = 1367"
    by (simp_all add: table_stale_def table_grow_def)
  show ?thesis
    apply (simp add: internal_search_def f st)
    apply (subst search_loop.simps)
    apply (simp add: f sl z zero_entry_def)
    apply (subst search_loop.simps)
    apply (simp add: f)
    done
qed

text \<open>
  C4. The placement invariant does not hold in every reachable state. \<open>table_insert\<close>
  computes the step from \<open>step_prime\<close> before it calls \<open>grow_table\<close>, and keeps that step
  for the probe loop after the table has grown and \<open>step_prime\<close> has changed. In the
  reachable table \<open>table_fill 520\<close> (size 547, step prime 541), the insertion of the key of
  length 521 grows the table to size 1367 and step prime 1361, and places the entry at
  slot 354 with probe position 1, the slot of the old step 541; the slot derived from the
  entry's hash and the current \<open>size\<close> and \<open>step_prime\<close> is 1174. The resulting state is
  reachable, its entry at slot 354 is live, and \<open>table_get\<close> does not find the key.
\<close>

theorem placement_lost_after_growth:
  "reachable (table_fill 520)
   \<and> reachable table_stale
   \<and> table_insert (\<lambda>_. True) (table_fill 520) (key_n 521) 521 521 = Some (0, table_stale)
   \<and> size_tbl table_stale = 1367 \<and> step_prime table_stale = 1361
   \<and> slots table_stale ! 354 = ent_n 521 \<and> alive (ent_n 521) \<and> probepos (ent_n 521) = 1
   \<and> slot_index (hash (ent_n 521)) (ucast (probepos (ent_n 521)))
        (step_of table_stale (hash (ent_n 521))) (size_tbl table_stale) = 1174
   \<and> table_get table_stale (key_n 521) 521 = Some (- 1, NULL)"
proof -
  have st: "step_of table_stale (hash_len (key_n 521) 521) = 1361"
    by (intro step_of_hash_len_grown) (simp_all add: table_stale_def table_grow_def)
  have "slot_index (hash_len (key_n 521) 521) 1 1361 1367 = 1174"
    using slot_index_hash_len_grown [of 521 "key_n 521"] by (simp add: slot_b_def)
  then have "slot_index (hash (ent_n 521)) (ucast (probepos (ent_n 521)))
        (step_of table_stale (hash (ent_n 521))) (size_tbl table_stale) = 1174"
    using st by (simp add: ent_n_def table_stale_def table_grow_def)
  moreover have "table_get table_stale (key_n 521) 521 = Some (- 1, NULL)"
    by (simp add: table_get_def search_stale)
  moreover have "slots table_stale ! 354 = ent_n 521"
    by (simp add: table_stale_def)
  moreover have "reachable table_stale"
    using reachable.insert [OF reach_fill [of 520] insert_after_growth] by simp
  ultimately show ?thesis
    using reach_fill [of 520] insert_after_growth
    by (simp add: table_stale_def table_grow_def ent_n_def)
qed

section \<open>Growth trigger\<close>

lemma same_frame_refl [simp]: "same_frame ta ta"
  by (simp add: same_frame_def)

lemma same_frame_trans: "same_frame ta tb \<Longrightarrow> same_frame tb tc \<Longrightarrow> same_frame ta tc"
  by (simp add: same_frame_def)

lemma probe_walk_frame:
  assumes "probe_walk ta r step = Some (ta', r', i)"
  shows "same_frame ta ta'"
proof -
  have "same_frame ta (fst res)" if "probe_walk ta r step = Some res" for res
  proof (rule probe_walk.raw_induct
      [where P = "\<lambda>ta r step res. same_frame ta (fst res)", OF _ that], goal_cases)
    case (1 probe_walk ta r step res)
    define r1 where "r1 = r\<lparr>probepos := probepos r + 1\<rparr>"
    define t1 where "t1 = ta\<lparr>totalweight := totalweight ta + 1\<rparr>"
    define i where "i = slot_index (hash r1) (ucast (probepos r1)) step (size_tbl t1)"
    define e where "e = slots t1 ! i"
    note defs = r1_def [symmetric] t1_def [symmetric] i_def [symmetric] e_def [symmetric]
    have f1: "same_frame ta t1" by (simp add: t1_def same_frame_def)
    have f2: "same_frame ta (t1\<lparr>maxprobe := max (probepos r1) (maxprobe t1),
        slots := (slots t1)[i := r1]\<rparr>)"
      by (simp add: t1_def same_frame_def)
    from 1(2) have body:
      "(if \<not> alive e then Some (t1, r1, i)
        else if probepos e < probepos r1 \<or> (probepos e = probepos r1 \<and> hash r1 < hash e) then
          probe_walk (t1\<lparr>maxprobe := max (probepos r1) (maxprobe t1), slots := (slots t1)[i := r1]\<rparr>)
            e (step_of t1 (hash e))
        else if probepos e = probepos r1 \<and> hash r1 = hash e
                \<and> strncmp (bytes_of (key r1)) (bytes_of (key e)) (keylen r1) = 0 then
          Some (t1, r1, i)
        else probe_walk t1 r1 step) = Some res"
      by (simp only: Let_def defs)
    then show ?case
      using f1 f2 by (auto split: if_splits dest!: 1(1) intro: same_frame_trans)
  qed
  from this [OF assms] show ?thesis by simp
qed

lemma insert_exit_frame:
  assumes "insert_exit ta r i = Some (ex, ta', r')"
  shows "same_frame ta ta'"
  using assms
  by (auto simp: insert_exit_def Let_def same_frame_def split: if_splits option.splits)

lemma insert_loop_frame:
  assumes "insert_loop ta r step = Some (ex, ta', r')"
  shows "same_frame ta ta'"
proof -
  from assms obtain tw rw i where w: "probe_walk ta r step = Some (tw, rw, i)"
    and x: "insert_exit tw rw i = Some (ex, ta', r')"
    by (auto simp: insert_loop_def split: option.splits)
  from probe_walk_frame [OF w] insert_exit_frame [OF x] show ?thesis
    by (rule same_frame_trans)
qed

text \<open>An insertion that finds the load factor within the threshold does not grow.\<close>

lemma table_insert_no_growth:
  assumes ins: "table_insert calloc ta k klen d = Some (rv, ta')"
    and nl: "\<not> load_factor_exceeded (elements ta) (size_tbl ta)"
  shows "size_tbl ta' = size_tbl ta \<and> length (slots ta') = length (slots ta)
     \<and> step_prime ta' = step_prime ta \<and> hash_fn ta' = hash_fn ta \<and> cmp_fn ta' = cmp_fn ta
     \<and> (elements ta' = elements ta \<or> elements ta' = elements ta + 1)"
proof (cases "unat (elements ta) = size_tbl ta")
  case True
  with ins show ?thesis
    by (subst (asm) table_insert.simps) (auto simp: Let_def)
next
  case False
  define r where "r = \<lparr>hash = hash_fn ta k klen, key = k, data = d, keylen = klen,
                probepos = 0, alive = True\<rparr>"
  from ins False nl have "Option.bind (insert_loop ta r (step_of ta (hash r)))
                (\<lambda>(ex, tb, r).
                   case ex of
                     Return v \<Rightarrow> Some (v, tb)
                   | Break \<Rightarrow>
                       Some (0, tb\<lparr>elements := elements tb + 1,
                                   maxprobe := max (probepos r) (maxprobe tb)\<rparr>)) = Some (rv, ta')"
    by (subst (asm) table_insert.simps) (simp add: Let_def r_def)
  then obtain ex t2 r2 where l: "insert_loop ta r (step_of ta (hash r)) = Some (ex, t2, r2)"
    and res: "(case ex of
                     Return v \<Rightarrow> Some (v, t2)
                   | Break \<Rightarrow> Some (0, t2\<lparr>elements := elements t2 + 1,
                                   maxprobe := max (probepos r2) (maxprobe t2)\<rparr>)) = Some (rv, ta')"
    unfolding bind_eq_Some_conv by auto
  from insert_loop_frame [OF l] res show ?thesis
    by (auto simp: same_frame_def split: loop_exit.splits)
qed

lemma next_prime_up_bounds:
  assumes "next_prime_up n = Some m" and "n \<le> p" and "is_prime p" and "p < 18446744073709551615"
  shows "n \<le> m \<and> m \<le> p"
proof -
  have "n \<le> p \<longrightarrow> n \<le> m \<and> m \<le> p"
  proof (rule next_prime_up.raw_induct
      [where P = "\<lambda>n m. n \<le> p \<longrightarrow> n \<le> m \<and> m \<le> p", OF _ assms(1)], goal_cases)
    case (1 next_prime_up n m)
    show ?case
    proof (cases "is_prime n")
      case True
      with 1(2) show ?thesis by simp
    next
      case False
      show ?thesis
      proof
        assume np: "n \<le> p"
        with False assms(3) have "n < p" by (cases "n = p") auto
        with assms(4) have "(n + 1) mod 18446744073709551616 = n + 1" by simp
        with 1(2) False have "next_prime_up (n + 1) = Some m" by simp
        from 1(1) [OF this] \<open>n < p\<close> show "n \<le> m \<and> m \<le> p" by simp
      qed
    qed
  qed
  with assms(2) show ?thesis by simp
qed

lemma next_prime_size_bounds:
  assumes "next_prime_size s = Some new" and "s < 2097152"
  shows "(5 * s) div 2 \<le> new \<and> new \<le> 5242883"
proof -
  from assms(2) have "scale_size s = (5 * s) div 2"
    by (simp add: scale_size_def float_of_nat_small)
  moreover from assms(2) have "(5 * s) div 2 \<le> 5242883" by simp
  ultimately show ?thesis
    using next_prime_up_bounds [of "(5 * s) div 2" new 5242883] assms(1) is_prime_anchor
    by (simp add: next_prime_size_def)
qed

text \<open>A count of at most the old capacity is within the threshold of the new one.\<close>

lemma load_after_growth:
  assumes "e \<le> s" and "1 \<le> s" and "s < 2097152" and "(5 * s) div 2 \<le> new"
  shows "\<not> load_factor_exceeded (of_nat e) new"
proof -
  from assms have e: "unat (of_nat e :: u32) = e" "float_of_nat e = e"
    by (simp_all add: unat_of_nat_u32 float_of_nat_small)
  have big: "33554432 * e < 31876711 * float_of_nat new"
  proof (cases "new < 16777216")
    case True
    with assms show ?thesis by (simp add: float_of_nat_small)
  next
    case False
    then have "16777216 \<le> float_of_nat new" by (simp add: float_of_nat_large)
    with assms show ?thesis by simp
  qed
  then have "float_of_nat new \<noteq> 0" by auto
  with big e show ?thesis by (simp add: load_factor_exceeded_def)
qed

lemma replay_bound:
  assumes "replay (table_insert calloc) es ta = Some ta'"
    and "size_tbl ta = new" and "unat (elements ta) + length es \<le> s"
    and s: "1 \<le> s" "s < 2097152" "(5 * s) div 2 \<le> new"
  shows "size_tbl ta' = new \<and> unat (elements ta') \<le> unat (elements ta) + length es"
  using assms(1-3)
proof (induction es arbitrary: ta)
  case Nil
  then show ?case by simp
next
  case (Cons e es)
  show ?case
  proof (cases "alive e")
    case False
    with Cons.prems Cons.IH [of ta] show ?thesis by simp
  next
    case True
    with Cons.prems(1) obtain rv t1 where
      i: "table_insert calloc ta (key e) (keylen e) (data e) = Some (rv, t1)"
      and r: "replay (table_insert calloc) es t1 = Some ta'"
      by (auto split: option.splits)
    from Cons.prems(3) have "unat (elements ta) \<le> s" by simp
    from load_after_growth [OF this s] Cons.prems(2)
    have "\<not> load_factor_exceeded (elements ta) (size_tbl ta)" by simp
    from table_insert_no_growth [OF i this]
    have t1: "size_tbl t1 = size_tbl ta"
      and el: "elements t1 = elements ta \<or> elements t1 = elements ta + 1"
      by simp_all
    from el have el': "unat (elements t1) \<le> unat (elements ta) + 1"
      using unat_inc_le [of "elements ta"] by auto
    with Cons.prems(3) have "unat (elements t1) + length es \<le> s" by simp
    with Cons.IH [OF r] t1 Cons.prems(2) el' show ?thesis by simp
  qed
qed

lemma grow_table_with_bound:
  assumes g: "grow_table_with (table_insert calloc) calloc ta = Some (gv, tg)"
    and n: "next_prime_size (size_tbl ta) = Some new" and c: "calloc new"
    and s: "1 \<le> size_tbl ta" "size_tbl ta < 2097152"
  shows "size_tbl tg = new \<and> unat (elements tg) \<le> size_tbl ta"
proof -
  define t1 where "t1 = ta\<lparr>slots := replicate new zero_entry,
                       size_tbl := new,
                       step_prime := next_prime_step new,
                       elements := 0, maxprobe := 0, totalweight := 0\<rparr>"
  from g n c have r: "replay (table_insert calloc) (take (size_tbl ta) (slots ta)) t1 = Some tg"
    by (auto simp: grow_table_with_def t1_def split: option.splits)
  from next_prime_size_bounds [OF n s(2)] have nb: "(5 * size_tbl ta) div 2 \<le> new" by simp
  have "size_tbl tg = new
      \<and> unat (elements tg) \<le> unat (elements t1) + length (take (size_tbl ta) (slots ta))"
    by (rule replay_bound [OF r _ _ s nb]) (simp_all add: t1_def)
  then show ?thesis by (simp add: t1_def)
qed

text \<open>
  C5, as the claim states it, fails: in the table \<open>table_fill 519\<close> (capacity 547, 519
  elements) the load factor after the insert, \<open>520 / 547\<close>, exceeds 0.95, the allocator
  would serve a growth, and the insert places the key in the old array of 547 slots
  without growing.
\<close>

theorem growth_trigger_counterexample:
  "reachable (table_fill 519)
   \<and> load_factor_exceeded (elements (table_fill 519) + 1) (size_tbl (table_fill 519))
   \<and> table_insert (\<lambda>_. True) (table_fill 519) (key_n 520) 520 520 = Some (0, table_fill 520)
   \<and> size_tbl (table_fill 520) = size_tbl (table_fill 519)
   \<and> slots (table_fill 520) ! slot_a 520 = ent_n 520"
proof -
  have "table_insert (\<lambda>_. True) (table_fill 519) (key_n (Suc 519)) (Suc 519) (Suc 519)
      = Some (0, table_fill (Suc 519))"
    by (intro insert_fill_step) simp_all
  moreover have "load_factor_exceeded (elements (table_fill 519) + 1) (size_tbl (table_fill 519))"
    using load_547 [of 520] by (simp add: table_fill_def)
  moreover have "slots (table_fill 520) ! slot_a 520 = ent_n 520"
    using slots_fill_at [of 520 520] by (simp add: table_fill_def)
  ultimately show ?thesis
    using reach_fill [of 519] by (simp add: table_fill_def)
qed

text \<open>
  The slack of a single insert: a count that is within the threshold, or one more than
  such a count, is within the threshold itself or is so with one element fewer.
\<close>

lemma load_zero: "\<not> load_factor_exceeded 0 sz"
  by (simp add: load_factor_exceeded_def float_of_nat_def)

lemma load_slack:
  assumes "\<not> load_factor_exceeded e sz" and "e' = e \<or> e' = e + 1"
  shows "\<not> load_factor_exceeded e' sz
     \<or> (e' \<noteq> 0 \<and> \<not> load_factor_exceeded (e' - 1) sz)"
proof (cases "e' = e")
  case True
  with assms(1) show ?thesis by simp
next
  case False
  with assms(2) have e': "e' = e + 1" by simp
  show ?thesis
  proof (cases "e' = 0")
    case True
    then show ?thesis by (simp add: load_zero)
  next
    case False
    moreover from e' have "e' - 1 = e" by simp
    ultimately show ?thesis using assms(1) by simp
  qed
qed

text \<open>
  C5, amended. Growth runs before the key is placed exactly when the load factor of the
  table as it is before the insert, \<open>(float)elements / (float)size\<close> without the new
  key, exceeds 0.95: otherwise the capacity stays, and when it does the capacity becomes
  \<open>next_prime_size size\<close> if the allocation succeeds. When no allocation fails, after a
  successful insert the load factor of the resulting table, with its count \<open>elements\<close>
  (an \<open>unsigned int\<close>), does not exceed the threshold, or it does not with one element
  fewer: the slack of a single insert. (For capacities below \<open>2 ^ 21\<close>, where the
  single-precision product \<open>size * 2.5\<close> is exact.)
\<close>

theorem growth_trigger_amended:
  assumes ins: "table_insert calloc ta k klen d = Some (rv, ta')"
    and s: "1 \<le> size_tbl ta" "size_tbl ta < 2097152"
  shows "(\<not> load_factor_exceeded (elements ta) (size_tbl ta) \<longrightarrow> size_tbl ta' = size_tbl ta)
     \<and> (load_factor_exceeded (elements ta) (size_tbl ta) \<and> rv = 0 \<longrightarrow>
          (\<exists>new. next_prime_size (size_tbl ta) = Some new
             \<and> (calloc new \<longrightarrow> size_tbl ta' = new \<and> size_tbl ta < new)))
     \<and> (rv = 0 \<and> (\<forall>n. calloc n) \<longrightarrow>
          \<not> load_factor_exceeded (elements ta') (size_tbl ta')
          \<or> (elements ta' \<noteq> 0
               \<and> \<not> load_factor_exceeded (elements ta' - 1) (size_tbl ta')))"
proof (cases "load_factor_exceeded (elements ta) (size_tbl ta)")
  case False
  from table_insert_no_growth [OF ins False]
  have sz: "size_tbl ta' = size_tbl ta"
    and el: "elements ta' = elements ta \<or> elements ta' = elements ta + 1"
    by simp_all
  from False sz have "\<not> load_factor_exceeded (elements ta) (size_tbl ta')" by simp
  from load_slack [OF this el]
  have "\<not> load_factor_exceeded (elements ta') (size_tbl ta')
     \<or> (elements ta' \<noteq> 0 \<and> \<not> load_factor_exceeded (elements ta' - 1) (size_tbl ta'))" .
  with False sz show ?thesis by blast
next
  case True
  show ?thesis
  proof (cases "rv = 0")
    case False
    with True show ?thesis by simp
  next
    case rv: True
    define r where "r = \<lparr>hash = hash_fn ta k klen, key = k, data = d, keylen = klen,
                probepos = 0, alive = True\<rparr>"
    have nf: "unat (elements ta) \<noteq> size_tbl ta"
      using ins rv by (subst (asm) table_insert.simps) (auto simp: Let_def)
    with ins True have b: "Option.bind
        (Option.bind (grow_table_with (table_insert calloc) calloc ta) (\<lambda>(_, ta'). Some ta'))
        (\<lambda>tb. Option.bind (insert_loop tb r (step_of ta (hash r)))
           (\<lambda>(ex, tb, r).
              case ex of
                Return v \<Rightarrow> Some (v, tb)
              | Break \<Rightarrow>
                  Some (0, tb\<lparr>elements := elements tb + 1,
                              maxprobe := max (probepos r) (maxprobe tb)\<rparr>))) = Some (rv, ta')"
      by (subst (asm) table_insert.simps) (simp add: Let_def r_def)
    then obtain gv tg where g: "grow_table_with (table_insert calloc) calloc ta = Some (gv, tg)"
      and b2: "Option.bind (insert_loop tg r (step_of ta (hash r)))
           (\<lambda>(ex, tb, r).
              case ex of
                Return v \<Rightarrow> Some (v, tb)
              | Break \<Rightarrow>
                  Some (0, tb\<lparr>elements := elements tb + 1,
                              maxprobe := max (probepos r) (maxprobe tb)\<rparr>)) = Some (rv, ta')"
      unfolding bind_eq_Some_conv by auto
    from b2 obtain ex t2 r2 where l: "insert_loop tg r (step_of ta (hash r)) = Some (ex, t2, r2)"
      and res: "(case ex of
                     Return v \<Rightarrow> Some (v, t2)
                   | Break \<Rightarrow> Some (0, t2\<lparr>elements := elements t2 + 1,
                                   maxprobe := max (probepos r2) (maxprobe t2)\<rparr>)) = Some (rv, ta')"
      unfolding bind_eq_Some_conv by auto
    from insert_loop_frame [OF l] res
    have fr: "size_tbl ta' = size_tbl tg"
      and el: "elements ta' = elements tg \<or> elements ta' = elements tg + 1"
      by (auto simp: same_frame_def split: loop_exit.splits)
    from g obtain new where n: "next_prime_size (size_tbl ta) = Some new"
      by (auto simp: grow_table_with_def split: option.splits)
    from next_prime_size_bounds [OF n s(2)] s(1)
    have nb: "(5 * size_tbl ta) div 2 \<le> new" and gt: "size_tbl ta < new" by auto
    have grown: "size_tbl ta' = new \<and> unat (elements tg) \<le> size_tbl ta" if "calloc new"
      using grow_table_with_bound [OF g n that s] fr by simp
    have third: "\<not> load_factor_exceeded (elements ta') (size_tbl ta')
        \<or> (elements ta' \<noteq> 0 \<and> \<not> load_factor_exceeded (elements ta' - 1) (size_tbl ta'))"
      if "\<forall>n. calloc n"
    proof -
      from that grown have "size_tbl ta' = new" "unat (elements tg) \<le> size_tbl ta" by simp_all
      with load_after_growth [of "unat (elements tg)", OF _ s nb]
      have "\<not> load_factor_exceeded (elements tg) (size_tbl ta')" by simp
      from load_slack [OF this el] show ?thesis .
    qed
    from True n grown gt third show ?thesis by blast
  qed
qed

theorem growth_trigger_amended_witness:
  "table_insert (\<lambda>_. True) (table_fill 519) (key_n 520) 520 520 = Some (0, table_fill 520)
   \<and> \<not> load_factor_exceeded (elements (table_fill 519)) (size_tbl (table_fill 519))
   \<and> size_tbl (table_fill 520) = size_tbl (table_fill 519)
   \<and> elements (table_fill 520) \<noteq> 0
   \<and> \<not> load_factor_exceeded (elements (table_fill 520) - 1) (size_tbl (table_fill 520))
   \<and> table_insert (\<lambda>_. True) (table_fill 520) (key_n 521) 521 521 = Some (0, table_stale)
   \<and> load_factor_exceeded (elements (table_fill 520)) (size_tbl (table_fill 520))
   \<and> next_prime_size (size_tbl (table_fill 520)) = Some (size_tbl table_stale)
   \<and> size_tbl (table_fill 520) < size_tbl table_stale
   \<and> \<not> load_factor_exceeded (elements table_stale) (size_tbl table_stale)"
proof -
  have i: "table_insert (\<lambda>_. True) (table_fill 519) (key_n 520) 520 520 = Some (0, table_fill 520)"
    using insert_fill_step [of 519 "\<lambda>_. True"] by simp
  have n: "\<not> load_factor_exceeded (elements (table_fill 519)) (size_tbl (table_fill 519))"
    using load_547 [of 519] by (simp add: table_fill_def)
  have s: "1 \<le> size_tbl (table_fill 519)" "size_tbl (table_fill 519) < 2097152"
    by (simp_all add: table_fill_def)
  note g = growth_trigger_amended [OF i s]
  from g n have a: "size_tbl (table_fill 520) = size_tbl (table_fill 519)"
    by blast
  have x: "load_factor_exceeded (elements (table_fill 520)) (size_tbl (table_fill 520))"
    using load_547 [of 520] by (simp add: table_fill_def)
  from g x have b: "elements (table_fill 520) \<noteq> 0
      \<and> \<not> load_factor_exceeded (elements (table_fill 520) - 1) (size_tbl (table_fill 520))"
    by blast
  have i': "table_insert (\<lambda>_. True) (table_fill 520) (key_n 521) 521 521 = Some (0, table_stale)"
    by (rule insert_after_growth)
  have s': "1 \<le> size_tbl (table_fill 520)" "size_tbl (table_fill 520) < 2097152"
    by (simp_all add: table_fill_def)
  note g' = growth_trigger_amended [OF i' s']
  from g' x obtain new where new: "next_prime_size (size_tbl (table_fill 520)) = Some new"
    "size_tbl table_stale = new" "size_tbl (table_fill 520) < new"
    by blast
  have c: "\<not> load_factor_exceeded (elements table_stale) (size_tbl table_stale)"
    using load_1367 [of 521] by (simp add: table_stale_def table_grow_def)
  from i n a b i' x new c show ?thesis by simp
qed
section \<open>Allocation failure\<close>

lemma grow_table_fails:
  "next_prime_size (size_tbl ta) = Some n \<Longrightarrow> \<not> calloc n \<Longrightarrow> grow_table calloc ta = Some (- 1, ta)"
  by (simp add: grow_table_def grow_table_with_fails)

text \<open>
  C7. With an allocator that fails, \<open>grow_table\<close> returns \<open>-1\<close> and leaves the table as
  it is, as the claim says; but \<open>table_insert\<close> does not pass the failure on. In the
  reachable table \<open>table_fill 520\<close>, whose load factor \<open>520 / 547\<close> exceeds 0.95, the
  insert of a further key returns 0 and places the key in the array that was not
  grown.
\<close>

theorem alloc_failure_not_propagated:
  "reachable (table_fill 520)
   \<and> load_factor_exceeded (elements (table_fill 520)) (size_tbl (table_fill 520))
   \<and> grow_table (\<lambda>_. False) (table_fill 520) = Some (- 1, table_fill 520)
   \<and> table_insert (\<lambda>_. False) (table_fill 520) (key_n 521) 521 521 = Some (0, table_fill 521)
   \<and> size_tbl (table_fill 521) = 547 \<and> elements (table_fill 521) = 521
   \<and> slots (table_fill 521) ! slot_a 521 = ent_n 521"
proof -
  have "table_insert (\<lambda>_. False) (table_fill 520) (key_n (Suc 520)) (Suc 520) (Suc 520)
      = Some (0, table_fill (Suc 520))"
    by (intro insert_fill_step) simp_all
  moreover have "load_factor_exceeded (elements (table_fill 520)) (size_tbl (table_fill 520))"
    using load_547 [of 520] by (simp add: table_fill_def)
  moreover have "grow_table (\<lambda>_. False) (table_fill 520) = Some (- 1, table_fill 520)"
    by (rule grow_table_fails [where n = 1367]) (simp_all add: table_fill_def next_prime_size_547)
  moreover have "slots (table_fill 521) ! slot_a 521 = ent_n 521"
    using slots_fill_at [of 521 521] by (simp add: table_fill_def)
  ultimately show ?thesis
    using reach_fill [of 520] by (simp add: table_fill_def)
qed

section \<open>The slot-0 convention\<close>

text \<open>
  C8. When the search resolves a key to slot 0, \<open>table_get\<close> reports not-found with a
  \<open>NULL\<close> data pointer and \<open>table_remove\<close> reports not-found and leaves the table as
  it is; a success of either comes from a search result strictly greater than 0.
\<close>

theorem slot0_convention:
  "(internal_search ta k klen = Some 0 \<longrightarrow>
      table_get ta k klen = Some (- 1, NULL) \<and> table_remove ta k klen = Some (- 1, ta))
   \<and> (\<forall>d. table_get ta k klen = Some (0, d) \<longrightarrow>
         (\<exists>pos. 0 < pos \<and> internal_search ta k klen = Some pos))
   \<and> (\<forall>ta'. table_remove ta k klen = Some (0, ta') \<longrightarrow>
         (\<exists>pos. 0 < pos \<and> internal_search ta k klen = Some pos))"
  by (auto simp: table_get_def table_remove_def Let_def split: option.splits if_splits)

theorem slot0_convention_witness:
  "internal_search T_fbaa k_fbaa 4 = Some 0
   \<and> alive (slots T_fbaa ! 0) \<and> cmp_fn T_fbaa k_fbaa (key (slots T_fbaa ! 0)) 4 = 0
   \<and> table_get T_fbaa k_fbaa 4 = Some (- 1, NULL)
   \<and> table_remove T_fbaa k_fbaa 4 = Some (- 1, T_fbaa)"
proof -
  have "alive (slots T_fbaa ! 0) \<and> cmp_fn T_fbaa k_fbaa (key (slots T_fbaa ! 0)) 4 = 0"
    by (simp add: T_fbaa_def T0_def k_fbaa_def table_cmp_def bytes_of_def byte0_def)
  with search_fbaa slot0_convention [of T_fbaa k_fbaa 4] show ?thesis
    by simp
qed

section \<open>Upsert\<close>

text \<open>
  C3. The upsert fails in the reachable table \<open>T4\<close>: the key \<open>"ab"\<close> is alive in slot 215
  with data 2, and inserting it again with data 4 evicts \<open>"ac"\<close> from slot 65, puts a
  second live entry for \<open>"ab"\<close> there, leaves the entry in slot 215 as it was and
  raises \<open>elements\<close> from 2 to 3.
\<close>

theorem upsert_duplicates_key:
  "reachable T4
   \<and> alive (slots T4 ! 215) \<and> key (slots T4 ! 215) = k_ab \<and> data (slots T4 ! 215) = 2
   \<and> elements T4 = 2
   \<and> table_insert (\<lambda>_. True) T4 k_ab 2 4 = Some (0, T5)
   \<and> elements T5 = 3
   \<and> slots T5 ! 215 = slots T4 ! 215
   \<and> alive (slots T5 ! 65) \<and> key (slots T5 ! 65) = k_ab \<and> data (slots T5 ! 65) = 4"
  using reach_T4 ins_ab_again by (simp add: T4_def T5_def T0_def e_ab_def)

section \<open>Round trip\<close>

text \<open>
  C1. The round trip fails for the single key \<open>"fbaa"\<close>: it is inserted in slot 0 of a
  fresh table, and the lookup that follows reports not-found instead of the data 7.
\<close>

theorem round_trip_fails_at_slot0:
  "Option.bind (table_new True (\<lambda>_. True) None None)
     (\<lambda>ta. Option.bind (table_insert (\<lambda>_. True) ta k_fbaa 4 7)
        (\<lambda>(rv, ta'). Option.bind (table_get ta' k_fbaa 4) (\<lambda>g. Some (rv, g))))
   = Some (0, - 1, NULL)"
  by (simp add: new_T0 ins_fbaa table_get_def search_fbaa)

section \<open>Sizing policy\<close>

text \<open>
  C6. The sizing policy fails. From the capacity 547 the growth chooses 1367, which is
  below \<open>547 * 2.5\<close>, so it is not a prime at or above the ceiling 1368 of that
  product. The primality test accepts 25, the square of 5; a capacity of 10 would grow
  to 25, and a capacity of 26 would get the step modulus 25.
\<close>

theorem sizing_policy_fails:
  "next_prime_size 547 = Some 1367 \<and> (2 :: nat) * 1367 < 5 * 547
   \<and> is_prime 25 \<and> (25 :: nat) = 5 * 5
   \<and> next_prime_size 10 = Some 25 \<and> next_prime_step 26 = 25"
proof -
  have p25: "is_prime 25"
    by (simp add: is_prime_def is_prime_loop.simps int_square_def)
  have "next_prime_size 10 = Some 25"
    unfolding next_prime_size_def scale_size_def
    by (subst next_prime_up.simps) (simp add: float_of_nat_def p25)
  moreover have "next_prime_step 26 = 25"
    by (simp add: next_prime_step_def dec64_def next_prime_down.simps p25)
  ultimately show ?thesis
    using p25 next_prime_size_547 by simp
qed

section \<open>Termination of the insertion loop\<close>


















subsection \<open>The element count\<close>













subsection \<open>A search that does not return\<close>











end
